theory Spec2Isabelle
  imports Main
begin

section \<open>IgorExt::StaticVector: a fixed-capacity vector over raw inline storage\<close>

text \<open>
  The development embeds \<^verbatim>\<open>src/external/Igor-StaticVector.hpp\<close> as it behaves in a build
  with assertions enabled. Three things the C++ leaves implicit are explicit here:
  \<^item> the lifetime of the object in every slot of the storage (a slot is raw memory or holds
    a live element);
  \<^item> the assertions a call evaluates, in order, and the one that aborts it;
  \<^item> undefined behaviour (an access outside the storage, a read of or an assignment to a slot
    that holds no object), which is an outcome of its own.
  An element passed to a member function (\<^verbatim>\<open>const Element&\<close> or \<^verbatim>\<open>Element&&\<close>) is an object
  of its own, outside the storage of the vector it is passed to, and is given by its value.
  Sizes are \<open>size_t\<close>; every subtraction and increment of the source is guarded by an
  assertion that excludes wrap-around, so they are natural numbers. Pointers into the storage
  of a vector are element offsets from \<^verbatim>\<open>m_storage.data()\<close> and are integers, since
  \<^verbatim>\<open>rend()\<close> is offset \<open>-1\<close>.
\<close>

subsection \<open>Outcomes of a call\<close>

datatype assertion =
    SizeFitsCapacity     \<comment> \<open>"Size of vector must be less than or equal to the capacity."\<close>
  | SizeBelowCapacity    \<comment> \<open>"Size may not exceed capacity."\<close>
  | ReserveFitsCapacity  \<comment> \<open>"Reserved capacity must be less than CAPACITY."\<close>
  | ContainsElement      \<comment> \<open>"Vector must contain at least one element."\<close>
  | NotEmpty             \<comment> \<open>"Vector cannot be empty."\<close>
  | CountFitsCapacity    \<comment> \<open>"Count exceeds maximum capacity of static vector."\<close>
  | ValidIterator        \<comment> \<open>"Invalid iterator"\<close>
  | ValidIteratorPair    \<comment> \<open>"Invalid iterator pair"\<close>

datatype 'a outcome =
    Returned 'a
  | AssertionFailed assertion
  | UndefinedBehaviour

text \<open>A call yields the assertions it evaluated (oldest first) and how it ended.\<close>

type_synonym 'a exec = "assertion list \<times> 'a outcome"

definition checks :: "'a exec \<Rightarrow> assertion list" where
  "checks m = fst m"

definition outcome :: "'a exec \<Rightarrow> 'a outcome" where
  "outcome m = snd m"

definition ret :: "'a \<Rightarrow> 'a exec" where
  "ret x = ([], Returned x)"

definition undefined_behaviour :: "'a exec" where
  "undefined_behaviour = ([], UndefinedBehaviour)"

text \<open>\<^verbatim>\<open>assert(c && "...")\<close>: the check is evaluated, and the call aborts when it fails.\<close>

definition assert :: "bool \<Rightarrow> assertion \<Rightarrow> unit exec" where
  "assert c a = ([a], if c then Returned () else AssertionFailed a)"

text \<open>Sequencing: the second statement runs only if the first one returned.\<close>

definition and_then :: "'a exec \<Rightarrow> ('a \<Rightarrow> 'b exec) \<Rightarrow> 'b exec" where
  "and_then m f =
     (case snd m of
        Returned x \<Rightarrow> (fst m @ fst (f x), snd (f x))
      | AssertionFailed a \<Rightarrow> (fst m, AssertionFailed a)
      | UndefinedBehaviour \<Rightarrow> (fst m, UndefinedBehaviour))"

text \<open>A loop over a known sequence of indices, threading the state through the body.\<close>

primrec for_each :: "'i list \<Rightarrow> ('i \<Rightarrow> 's \<Rightarrow> 's exec) \<Rightarrow> 's \<Rightarrow> 's exec" where
  "for_each [] body s = ret s"
| "for_each (i # is) body s = and_then (body i s) (for_each is body)"

subsection \<open>The element type and the storage\<close>

text \<open>
  The template parameter \<open>Element\<close>: the two type traits the source branches on, the value of
  \<^verbatim>\<open>Element{}\<close>, and the state a move leaves in the object moved from.
\<close>

record 'a element =
  trivially_default_constructible :: bool
  trivially_destructible :: bool
  value_initialized :: 'a
  moved_from :: "'a \<Rightarrow> 'a"

definition constructor_and_destructor_are_cheap :: "'a element \<Rightarrow> bool" where
  "constructor_and_destructor_are_cheap E \<longleftrightarrow>
     trivially_default_constructible E \<and> trivially_destructible E"

datatype 'a slot = Raw | Live 'a

fun is_live :: "'a slot \<Rightarrow> bool" where
  "is_live Raw = False"
| "is_live (Live x) = True"

text \<open>
  \<^verbatim>\<open>UninitializedArray<Element, CAPACITY> m_storage{}\<close>: an \<open>Element[CAPACITY]\<close> of
  value-initialised elements for a cheap element type, \<open>CAPACITY * sizeof(Element)\<close> bytes
  holding no object otherwise.
\<close>

definition UninitializedArray :: "'a element \<Rightarrow> nat \<Rightarrow> 'a slot list" where
  "UninitializedArray E CAPACITY =
     (if constructor_and_destructor_are_cheap E
      then replicate CAPACITY (Live (value_initialized E))
      else replicate CAPACITY Raw)"

record 'a StaticVector =
  m_storage :: "'a slot list"
  m_size :: nat

text \<open>\<^verbatim>\<open>constexpr StaticVector() noexcept = default\<close>\<close>

definition StaticVector_default :: "'a element \<Rightarrow> nat \<Rightarrow> 'a StaticVector" where
  "StaticVector_default E CAPACITY =
     \<lparr>m_storage = UninitializedArray E CAPACITY, m_size = 0\<rparr>"

subsection \<open>Accesses to a slot\<close>

text \<open>Reading through \<^verbatim>\<open>*(m_storage.data() + idx)\<close>.\<close>

definition read_slot :: "'a StaticVector \<Rightarrow> int \<Rightarrow> 'a exec" where
  "read_slot v p =
     (if 0 \<le> p \<and> nat p < length (m_storage v)
      then (case m_storage v ! nat p of Live x \<Rightarrow> ret x | Raw \<Rightarrow> undefined_behaviour)
      else undefined_behaviour)"

text \<open>Placement new: \<^verbatim>\<open>new (m_storage.data() + idx) Element(e)\<close> starts a lifetime.\<close>

definition construct_at :: "nat \<Rightarrow> 'a \<Rightarrow> 'a StaticVector \<Rightarrow> 'a StaticVector exec" where
  "construct_at idx e v =
     (if idx < length (m_storage v)
      then ret (v\<lparr>m_storage := (m_storage v)[idx := Live e]\<rparr>)
      else undefined_behaviour)"

text \<open>\<^verbatim>\<open>(*this)[idx] = e\<close>: assignment needs an object to assign to.\<close>

definition assign_slot :: "int \<Rightarrow> 'a \<Rightarrow> 'a StaticVector \<Rightarrow> 'a StaticVector exec" where
  "assign_slot p e v =
     (if 0 \<le> p \<and> nat p < length (m_storage v) \<and> is_live (m_storage v ! nat p)
      then ret (v\<lparr>m_storage := (m_storage v)[nat p := Live e]\<rparr>)
      else undefined_behaviour)"

text \<open>The object a value was moved out of stays alive, in its moved-from state.\<close>

definition leave_moved_from :: "'a element \<Rightarrow> int \<Rightarrow> 'a \<Rightarrow> 'a StaticVector \<Rightarrow> 'a StaticVector" where
  "leave_moved_from E p x v = v\<lparr>m_storage := (m_storage v)[nat p := Live (moved_from E x)]\<rparr>"

text \<open>\<^verbatim>\<open>*dst = std::move(*src)\<close> between two slots of one vector.\<close>

definition move_assign_slot ::
  "'a element \<Rightarrow> int \<Rightarrow> int \<Rightarrow> 'a StaticVector \<Rightarrow> 'a StaticVector exec" where
  "move_assign_slot E dst src v =
     and_then (read_slot v src) (\<lambda>x.
     and_then (assign_slot dst x v) (\<lambda>v'.
     ret (leave_moved_from E src x v')))"

text \<open>
  \<^verbatim>\<open>*dst = std::move(*src)\<close> where \<open>src\<close> is a \<open>const Element*\<close>: the rvalue is
  const, so the copy assignment is chosen and the source slot keeps its value.
\<close>

definition copy_assign_slot :: "int \<Rightarrow> int \<Rightarrow> 'a StaticVector \<Rightarrow> 'a StaticVector exec" where
  "copy_assign_slot dst src v =
     and_then (read_slot v src) (\<lambda>x. assign_slot dst x v)"

text \<open>
  \<^verbatim>\<open>std::destroy_at(m_storage.data() + idx)\<close> ends the lifetime of the element. In the
  \<open>Element[CAPACITY]\<close> storage of a cheap element type the destructor does nothing and the
  array element stays.
\<close>

definition destroy_at :: "'a element \<Rightarrow> nat \<Rightarrow> 'a StaticVector \<Rightarrow> 'a StaticVector exec" where
  "destroy_at E idx v =
     (if idx < length (m_storage v) \<and> is_live (m_storage v ! idx)
      then ret (if constructor_and_destructor_are_cheap E then v
                 else v\<lparr>m_storage := (m_storage v)[idx := Raw]\<rparr>)
      else undefined_behaviour)"

subsection \<open>Size and capacity queries, iterators\<close>

definition empty_sv :: "'a StaticVector \<Rightarrow> bool" where
  "empty_sv v \<longleftrightarrow> m_size v = 0"

definition size_sv :: "'a StaticVector \<Rightarrow> nat" where
  "size_sv v = m_size v"

definition max_size :: "nat \<Rightarrow> 'a StaticVector \<Rightarrow> nat" where
  "max_size CAPACITY v = CAPACITY"

definition capacity :: "nat \<Rightarrow> 'a StaticVector \<Rightarrow> nat" where
  "capacity CAPACITY v = CAPACITY"

definition reserve :: "nat \<Rightarrow> nat \<Rightarrow> 'a StaticVector \<Rightarrow> 'a StaticVector exec" where
  "reserve CAPACITY reserve_capacity v =
     and_then (assert (reserve_capacity \<le> CAPACITY) ReserveFitsCapacity) (\<lambda>_. ret v)"

definition shrink_to_fit :: "'a StaticVector \<Rightarrow> 'a StaticVector exec" where
  "shrink_to_fit v = ret v"

text \<open>\<^verbatim>\<open>begin()\<close>, \<^verbatim>\<open>cbegin()\<close> are \<^verbatim>\<open>m_storage.data()\<close>; \<^verbatim>\<open>end()\<close>, \<^verbatim>\<open>cend()\<close> add \<open>m_size\<close>.\<close>

definition begin_sv :: "'a StaticVector \<Rightarrow> int" where
  "begin_sv v = 0"

definition end_sv :: "'a StaticVector \<Rightarrow> int" where
  "end_sv v = int (m_size v)"

subsection \<open>Element access\<close>

text \<open>
  \<^verbatim>\<open>operator[](idx)\<close> is \<^verbatim>\<open>*(m_storage.data() + idx)\<close> and nothing else; the model is the read
  through the reference it returns.
\<close>

definition subscript :: "'a StaticVector \<Rightarrow> nat \<Rightarrow> 'a exec" where
  "subscript v idx = read_slot v (int idx)"



subsection \<open>Appending and removing at the end\<close>

definition push_back :: "nat \<Rightarrow> 'a \<Rightarrow> 'a StaticVector \<Rightarrow> 'a StaticVector exec" where
  "push_back CAPACITY e v =
     and_then (assert (m_size v < CAPACITY) SizeBelowCapacity) (\<lambda>_.
     and_then (construct_at (m_size v) e v) (\<lambda>v'.
     ret (v'\<lparr>m_size := m_size v' + 1\<rparr>)))"

text \<open>
  \<^verbatim>\<open>push_back(Element&& e)\<close> move-constructs the new element; what it leaves in the
  caller's object is the caller's business (see \<open>move_elements\<close>).
\<close>

definition push_back_rv :: "nat \<Rightarrow> 'a \<Rightarrow> 'a StaticVector \<Rightarrow> 'a StaticVector exec" where
  "push_back_rv CAPACITY e v =
     and_then (assert (m_size v < CAPACITY) SizeBelowCapacity) (\<lambda>_.
     and_then (construct_at (m_size v) e v) (\<lambda>v'.
     ret (v'\<lparr>m_size := m_size v' + 1\<rparr>)))"

text \<open>\<^verbatim>\<open>emplace_back(args...)\<close>, given the element \<^verbatim>\<open>Element(args...)\<close> constructs.\<close>

definition emplace_back :: "nat \<Rightarrow> 'a \<Rightarrow> 'a StaticVector \<Rightarrow> 'a StaticVector exec" where
  "emplace_back CAPACITY e v =
     and_then (assert (m_size v < CAPACITY) SizeBelowCapacity) (\<lambda>_.
     and_then (construct_at (m_size v) e v) (\<lambda>v'.
     ret (v'\<lparr>m_size := m_size v' + 1\<rparr>)))"

definition pop_back :: "'a element \<Rightarrow> 'a StaticVector \<Rightarrow> ('a \<times> 'a StaticVector) exec" where
  "pop_back E v =
     and_then (assert (m_size v > 0) NotEmpty) (\<lambda>_.
     let v1 = v\<lparr>m_size := m_size v - 1\<rparr> in
     and_then (subscript v1 (m_size v1)) (\<lambda>tmp.
     and_then (destroy_at E (m_size v1) (leave_moved_from E (int (m_size v1)) tmp v1)) (\<lambda>v2.
     ret (tmp, v2))))"

definition clear :: "'a element \<Rightarrow> 'a StaticVector \<Rightarrow> 'a StaticVector exec" where
  "clear E v =
     and_then (if \<not> trivially_destructible E
               then for_each [0..<m_size v] (destroy_at E) v
               else ret v) (\<lambda>v'.
     ret (v'\<lparr>m_size := 0\<rparr>))"

text \<open>\<^verbatim>\<open>~StaticVector()\<close>: what is left in the storage when the vector dies.\<close>

definition destructor :: "'a element \<Rightarrow> 'a StaticVector \<Rightarrow> 'a StaticVector exec" where
  "destructor E v =
     (if \<not> trivially_destructible E
      then for_each [0..<m_size v] (destroy_at E) v
      else ret v)"

subsection \<open>Construction and assignment\<close>

text \<open>\<^verbatim>\<open>StaticVector(size_t size, const Element& init = Element{})\<close>\<close>

definition StaticVector_sized :: "'a element \<Rightarrow> nat \<Rightarrow> nat \<Rightarrow> 'a \<Rightarrow> 'a StaticVector exec" where
  "StaticVector_sized E CAPACITY n init =
     for_each [0..<n] (\<lambda>i. push_back CAPACITY init) (StaticVector_default E CAPACITY)"

text \<open>\<^verbatim>\<open>StaticVector(std::initializer_list<Element> values)\<close>\<close>

definition StaticVector_init_list :: "'a element \<Rightarrow> nat \<Rightarrow> 'a list \<Rightarrow> 'a StaticVector exec" where
  "StaticVector_init_list E CAPACITY values =
     for_each values (push_back CAPACITY) (StaticVector_default E CAPACITY)"

text \<open>\<^verbatim>\<open>for (const auto& e : other) push_back(e)\<close>, from a vector of the same type.\<close>

definition copy_elements ::
  "nat \<Rightarrow> 'a StaticVector \<Rightarrow> 'a StaticVector \<Rightarrow> 'a StaticVector exec" where
  "copy_elements CAPACITY other v =
     for_each [0..<m_size other]
       (\<lambda>i v. and_then (read_slot other (int i)) (\<lambda>e. push_back CAPACITY e v)) v"

text \<open>
  \<^verbatim>\<open>for (const auto& e : other) push_back(Element{e})\<close>, from a vector of another type:
  \<open>conv\<close> is the conversion \<^verbatim>\<open>Element{e}\<close>, and the temporary goes to the rvalue overload.
\<close>

definition convert_elements ::
  "nat \<Rightarrow> ('b \<Rightarrow> 'a) \<Rightarrow> 'b StaticVector \<Rightarrow> 'a StaticVector \<Rightarrow> 'a StaticVector exec" where
  "convert_elements CAPACITY conv other v =
     for_each [0..<m_size other]
       (\<lambda>i v. and_then (read_slot other (int i)) (\<lambda>e. push_back_rv CAPACITY (conv e) v)) v"

text \<open>
  \<^verbatim>\<open>for (auto& e : other) push_back(std::move(e))\<close>: the state is this vector and the
  other one, whose elements are left moved-from; \<open>E'\<close> is the other element type and
  \<open>conv\<close> the conversion of an element moved out of it, the identity for the same type.
\<close>

definition move_elements ::
  "'b element \<Rightarrow> nat \<Rightarrow> ('b \<Rightarrow> 'a) \<Rightarrow> 'a StaticVector \<times> 'b StaticVector \<Rightarrow>
     ('a StaticVector \<times> 'b StaticVector) exec" where
  "move_elements E' CAPACITY conv s =
     for_each [0..<m_size (snd s)]
       (\<lambda>i s. and_then (read_slot (snd s) (int i)) (\<lambda>e.
               and_then (push_back_rv CAPACITY (conv e) (fst s)) (\<lambda>v'.
               ret (v', leave_moved_from E' (int i) e (snd s))))) s"

text \<open>Copy constructors: same type, and from another element type or capacity.\<close>

definition StaticVector_copy :: "'a element \<Rightarrow> nat \<Rightarrow> 'a StaticVector \<Rightarrow> 'a StaticVector exec" where
  "StaticVector_copy E CAPACITY other =
     copy_elements CAPACITY other (StaticVector_default E CAPACITY)"

definition StaticVector_copy_other ::
  "'a element \<Rightarrow> nat \<Rightarrow> nat \<Rightarrow> ('b \<Rightarrow> 'a) \<Rightarrow> 'b StaticVector \<Rightarrow> 'a StaticVector exec" where
  "StaticVector_copy_other E CAPACITY OTHER_CAPACITY conv other =
     and_then (if OTHER_CAPACITY > CAPACITY
               then assert (size_sv other \<le> CAPACITY) SizeFitsCapacity
               else ret ()) (\<lambda>_.
     convert_elements CAPACITY conv other (StaticVector_default E CAPACITY))"

text \<open>Move constructors; the result is the new vector and the vector moved from.\<close>

definition StaticVector_move ::
  "'a element \<Rightarrow> nat \<Rightarrow> 'a StaticVector \<Rightarrow> ('a StaticVector \<times> 'a StaticVector) exec" where
  "StaticVector_move E CAPACITY other =
     move_elements E CAPACITY (\<lambda>e. e) (StaticVector_default E CAPACITY, other)"

definition StaticVector_move_other ::
  "'a element \<Rightarrow> 'b element \<Rightarrow> nat \<Rightarrow> nat \<Rightarrow> ('b \<Rightarrow> 'a) \<Rightarrow> 'b StaticVector \<Rightarrow>
     ('a StaticVector \<times> 'b StaticVector) exec" where
  "StaticVector_move_other E E' CAPACITY OTHER_CAPACITY conv other =
     and_then (if OTHER_CAPACITY > CAPACITY
               then assert (size_sv other \<le> CAPACITY) SizeFitsCapacity
               else ret ()) (\<lambda>_.
     move_elements E' CAPACITY conv (StaticVector_default E CAPACITY, other))"

text \<open>
  Assignment between two vectors of one type can alias: the vectors live in a store and
  \<^verbatim>\<open>this\<close> and \<^verbatim>\<open>&other\<close> are addresses, compared as the source compares them.
\<close>

type_synonym 'a store = "nat \<Rightarrow> 'a StaticVector"

definition copy_assign :: "'a element \<Rightarrow> nat \<Rightarrow> nat \<Rightarrow> nat \<Rightarrow> 'a store \<Rightarrow> 'a store exec" where
  "copy_assign E CAPACITY this other st =
     (if this \<noteq> other
      then and_then (clear E (st this)) (\<lambda>v.
           and_then (copy_elements CAPACITY (st other) v) (\<lambda>v'.
           ret (st(this := v'))))
      else ret st)"

definition move_assign :: "'a element \<Rightarrow> nat \<Rightarrow> nat \<Rightarrow> nat \<Rightarrow> 'a store \<Rightarrow> 'a store exec" where
  "move_assign E CAPACITY this other st =
     (if this \<noteq> other
      then and_then (clear E (st this)) (\<lambda>v.
           and_then (move_elements E CAPACITY (\<lambda>e. e) (v, st other)) (\<lambda>s.
           ret (st(this := fst s, other := snd s))))
      else ret st)"

text \<open>Assignment from a vector of another type, which is another object.\<close>

definition copy_assign_other ::
  "'a element \<Rightarrow> nat \<Rightarrow> nat \<Rightarrow> ('b \<Rightarrow> 'a) \<Rightarrow> 'b StaticVector \<Rightarrow> 'a StaticVector \<Rightarrow>
     'a StaticVector exec" where
  "copy_assign_other E CAPACITY OTHER_CAPACITY conv other v =
     and_then (if OTHER_CAPACITY > CAPACITY
               then assert (size_sv other \<le> CAPACITY) SizeFitsCapacity
               else ret ()) (\<lambda>_.
     and_then (clear E v) (\<lambda>v'.
     convert_elements CAPACITY conv other v'))"

definition move_assign_other ::
  "'a element \<Rightarrow> 'b element \<Rightarrow> nat \<Rightarrow> nat \<Rightarrow> ('b \<Rightarrow> 'a) \<Rightarrow> 'b StaticVector \<Rightarrow> 'a StaticVector \<Rightarrow>
     ('a StaticVector \<times> 'b StaticVector) exec" where
  "move_assign_other E E' CAPACITY OTHER_CAPACITY conv other v =
     and_then (if OTHER_CAPACITY > CAPACITY
               then assert (size_sv other \<le> CAPACITY) SizeFitsCapacity
               else ret ()) (\<lambda>_.
     and_then (clear E v) (\<lambda>v'.
     move_elements E' CAPACITY conv (v', other)))"

definition assign :: "'a element \<Rightarrow> nat \<Rightarrow> nat \<Rightarrow> 'a \<Rightarrow> 'a StaticVector \<Rightarrow> 'a StaticVector exec" where
  "assign E CAPACITY count val v =
     and_then (assert (count \<le> CAPACITY) SizeFitsCapacity) (\<lambda>_.
     and_then (clear E v) (\<lambda>v'.
     for_each [0..<count] (\<lambda>i. push_back CAPACITY val) v'))"

subsection \<open>Resizing, inserting, erasing\<close>

text \<open>
  \<^verbatim>\<open>resize(count)\<close> grows by assigning \<^verbatim>\<open>Element{}\<close> to the slots from the old size on,
  after \<open>m_size\<close> is set, and shrinks by setting \<open>m_size\<close> alone.
\<close>

definition resize :: "'a element \<Rightarrow> nat \<Rightarrow> nat \<Rightarrow> 'a StaticVector \<Rightarrow> 'a StaticVector exec" where
  "resize E CAPACITY count v =
     and_then (assert (count \<le> CAPACITY) CountFitsCapacity) (\<lambda>_.
     if count > m_size v
     then (let old_size = m_size v; v1 = v\<lparr>m_size := count\<rparr>
           in for_each [old_size..<m_size v1] (\<lambda>i. assign_slot (int i) (value_initialized E)) v1)
     else ret (v\<lparr>m_size := count\<rparr>))"

text \<open>
  \<^verbatim>\<open>insert(const_iterator pos, const Element& value)\<close>: the loop runs \<open>i\<close> from \<open>m_size\<close> down
  to \<open>idx + 1\<close>; the iterator returned is \<open>pos\<close>.
\<close>

definition insert_sv ::
  "'a element \<Rightarrow> nat \<Rightarrow> int \<Rightarrow> 'a \<Rightarrow> 'a StaticVector \<Rightarrow> ('a StaticVector \<times> int) exec" where
  "insert_sv E CAPACITY pos val v =
     and_then (assert (m_size v < CAPACITY) SizeBelowCapacity) (\<lambda>_.
     let idx = pos - begin_sv v in
     and_then (assert (idx \<ge> 0) ValidIterator) (\<lambda>_.
     and_then (for_each (rev [Suc (nat idx)..<Suc (m_size v)])
                 (\<lambda>i. move_assign_slot E (int i) (int i - 1)) v) (\<lambda>v1.
     and_then (assign_slot (int (nat idx)) val v1) (\<lambda>v2.
     ret (v2\<lparr>m_size := m_size v2 + 1\<rparr>, pos)))))"

text \<open>\<^verbatim>\<open>insert(const_iterator pos, Element&& value)\<close> differs in move-assigning the value.\<close>

definition insert_rv ::
  "'a element \<Rightarrow> nat \<Rightarrow> int \<Rightarrow> 'a \<Rightarrow> 'a StaticVector \<Rightarrow> ('a StaticVector \<times> int) exec" where
  "insert_rv E CAPACITY pos val v =
     and_then (assert (m_size v < CAPACITY) SizeBelowCapacity) (\<lambda>_.
     let idx = pos - begin_sv v in
     and_then (assert (idx \<ge> 0) ValidIterator) (\<lambda>_.
     and_then (for_each (rev [Suc (nat idx)..<Suc (m_size v)])
                 (\<lambda>i. move_assign_slot E (int i) (int i - 1)) v) (\<lambda>v1.
     and_then (assign_slot (int (nat idx)) val v1) (\<lambda>v2.
     ret (v2\<lparr>m_size := m_size v2 + 1\<rparr>, pos)))))"

text \<open>
  \<^verbatim>\<open>std::move(first, last, d_first)\<close>, the algorithm: move-assigns \<open>*(first + k)\<close> to
  \<open>*(d_first + k)\<close> for \<open>k\<close> from 0 up; \<open>[first, last)\<close> must be a range.
\<close>

definition std_move ::
  "'a element \<Rightarrow> int \<Rightarrow> int \<Rightarrow> int \<Rightarrow> 'a StaticVector \<Rightarrow> 'a StaticVector exec" where
  "std_move E first lst d_first v =
     (if first \<le> lst
      then for_each [0..<nat (lst - first)]
             (\<lambda>k. move_assign_slot E (d_first + int k) (first + int k)) v
      else undefined_behaviour)"

text \<open>
  The same algorithm over \<open>const Element*\<close> input iterators, as
  \<^verbatim>\<open>erase(const_iterator, const_iterator)\<close> calls it: each step copy-assigns.
\<close>

definition std_move_const ::
  "int \<Rightarrow> int \<Rightarrow> int \<Rightarrow> 'a StaticVector \<Rightarrow> 'a StaticVector exec" where
  "std_move_const first lst d_first v =
     (if first \<le> lst
      then for_each [0..<nat (lst - first)]
             (\<lambda>k. copy_assign_slot (d_first + int k) (first + int k)) v
      else undefined_behaviour)"

text \<open>\<^verbatim>\<open>erase(iterator first, iterator last)\<close>; the iterator returned is \<open>first\<close>.\<close>

definition erase ::
  "'a element \<Rightarrow> int \<Rightarrow> int \<Rightarrow> 'a StaticVector \<Rightarrow> ('a StaticVector \<times> int) exec" where
  "erase E first lst v =
     and_then (std_move E lst (end_sv v) first v) (\<lambda>v1.
     let num_elems_removed = lst - first in
     and_then (assert (num_elems_removed \<ge> 0 \<and> m_size v1 \<ge> nat num_elems_removed)
                 ValidIteratorPair) (\<lambda>_.
     ret (v1\<lparr>m_size := m_size v1 - nat num_elems_removed\<rparr>, first)))"

text \<open>
  \<^verbatim>\<open>erase(const_iterator first, const_iterator last)\<close>: \<^verbatim>\<open>std::move(last, cend(), non_const_first)\<close>
  reads through const iterators.
\<close>

definition erase_const ::
  "int \<Rightarrow> int \<Rightarrow> 'a StaticVector \<Rightarrow> ('a StaticVector \<times> int) exec" where
  "erase_const first lst v =
     (let non_const_first = begin_sv v + (first - begin_sv v) in
      and_then (std_move_const lst (end_sv v) non_const_first v) (\<lambda>v1.
      let num_elems_removed = lst - first in
      and_then (assert (num_elems_removed \<ge> 0 \<and> m_size v1 \<ge> nat num_elems_removed)
                  ValidIteratorPair) (\<lambda>_.
      ret (v1\<lparr>m_size := m_size v1 - nat num_elems_removed\<rparr>, first))))"

text \<open>\<^verbatim>\<open>erase(iterator pos)\<close> and \<^verbatim>\<open>erase(const_iterator pos)\<close>\<close>

definition erase_at :: "'a element \<Rightarrow> int \<Rightarrow> 'a StaticVector \<Rightarrow> ('a StaticVector \<times> int) exec" where
  "erase_at E pos v = erase E pos (pos + 1) v"

definition erase_const_at :: "int \<Rightarrow> 'a StaticVector \<Rightarrow> ('a StaticVector \<times> int) exec" where
  "erase_const_at pos v = erase_const pos (pos + 1) v"

subsection \<open>The reverse iterator\<close>

text \<open>
  \<^verbatim>\<open>detail::ReverseIterator\<close> and \<^verbatim>\<open>detail::ConstReverseIterator\<close> wrap one pointer and have
  the same operators; the pointer is an element offset into the storage of the vector the
  iterator came from. Such a pointer is never null: the assertion of \<^verbatim>\<open>operator*\<close> and
  \<^verbatim>\<open>operator->\<close> holds for it, and the default-constructed iterator is left out.
\<close>

record ReverseIterator =
  m_ptr :: int

text \<open>
  \<^verbatim>\<open>operator==\<close>, \<^verbatim>\<open>operator<\<close>, \<^verbatim>\<open>operator<=\<close>, \<^verbatim>\<open>operator>\<close> and
  \<^verbatim>\<open>operator>=\<close> compare the wrapped pointers.
\<close>

definition ri_eq :: "ReverseIterator \<Rightarrow> ReverseIterator \<Rightarrow> bool" where
  "ri_eq a other \<longleftrightarrow> m_ptr a = m_ptr other"

definition ri_less :: "ReverseIterator \<Rightarrow> ReverseIterator \<Rightarrow> bool" where
  "ri_less a other \<longleftrightarrow> m_ptr a < m_ptr other"

definition ri_less_eq :: "ReverseIterator \<Rightarrow> ReverseIterator \<Rightarrow> bool" where
  "ri_less_eq a other \<longleftrightarrow> m_ptr a \<le> m_ptr other"

definition ri_greater :: "ReverseIterator \<Rightarrow> ReverseIterator \<Rightarrow> bool" where
  "ri_greater a other \<longleftrightarrow> m_ptr a > m_ptr other"

definition ri_greater_eq :: "ReverseIterator \<Rightarrow> ReverseIterator \<Rightarrow> bool" where
  "ri_greater_eq a other \<longleftrightarrow> m_ptr a \<ge> m_ptr other"

text \<open>\<^verbatim>\<open>operator*\<close> and \<^verbatim>\<open>operator[]\<close>, reading in the vector \<open>v\<close> the iterator points into.\<close>

definition ri_deref :: "'a StaticVector \<Rightarrow> ReverseIterator \<Rightarrow> 'a exec" where
  "ri_deref v a = read_slot v (m_ptr a)"

definition ri_subscript :: "'a StaticVector \<Rightarrow> ReverseIterator \<Rightarrow> int \<Rightarrow> 'a exec" where
  "ri_subscript v a offset = read_slot v (m_ptr a - offset)"

text \<open>Pre-increment and pre-decrement; the postfix forms return the old iterator as well.\<close>

definition ri_inc :: "ReverseIterator \<Rightarrow> ReverseIterator" where
  "ri_inc a = a\<lparr>m_ptr := m_ptr a - 1\<rparr>"

definition ri_post_inc :: "ReverseIterator \<Rightarrow> ReverseIterator \<times> ReverseIterator" where
  "ri_post_inc a = (let res = a in (res, a\<lparr>m_ptr := m_ptr a - 1\<rparr>))"

definition ri_dec :: "ReverseIterator \<Rightarrow> ReverseIterator" where
  "ri_dec a = a\<lparr>m_ptr := m_ptr a + 1\<rparr>"

definition ri_post_dec :: "ReverseIterator \<Rightarrow> ReverseIterator \<times> ReverseIterator" where
  "ri_post_dec a = (let res = a in (res, a\<lparr>m_ptr := m_ptr a + 1\<rparr>))"

definition ri_plus :: "ReverseIterator \<Rightarrow> int \<Rightarrow> ReverseIterator" where
  "ri_plus a offset = \<lparr>m_ptr = m_ptr a - offset\<rparr>"

definition ri_minus :: "ReverseIterator \<Rightarrow> int \<Rightarrow> ReverseIterator" where
  "ri_minus a offset = \<lparr>m_ptr = m_ptr a + offset\<rparr>"

text \<open>\<^verbatim>\<open>a - other\<close>, the distance from \<open>other\<close> to \<open>a\<close>.\<close>

definition ri_distance :: "ReverseIterator \<Rightarrow> ReverseIterator \<Rightarrow> int" where
  "ri_distance a other = m_ptr other - m_ptr a"

definition rbegin :: "'a StaticVector \<Rightarrow> ReverseIterator" where
  "rbegin v = \<lparr>m_ptr = int (m_size v) - 1\<rparr>"

definition rend :: "'a StaticVector \<Rightarrow> ReverseIterator" where
  "rend v = \<lparr>m_ptr = - 1\<rparr>"

text \<open>
  The iterator loop \<^verbatim>\<open>for (; it != last; ++it) visit(*it)\<close>: the outcomes of the reads, in
  the order of the visits. A loop that never reaches \<open>last\<close> has no result.
\<close>

partial_function (option) traverse ::
  "'a StaticVector \<Rightarrow> ReverseIterator \<Rightarrow> ReverseIterator \<Rightarrow> 'a outcome list option" where
  "traverse v it lst =
     (if ri_eq it lst then Some []
      else Option.bind (traverse v (ri_inc it) lst)
             (\<lambda>rest. Some (outcome (ri_deref v it) # rest)))"

declare traverse.simps [code]

subsection \<open>Well-formed vectors\<close>

text \<open>
  What every constructor establishes: the storage has \<open>CAPACITY\<close> slots, the size is within
  it, the slots below the size are live, and every slot of an \<open>Element[CAPACITY]\<close> storage is.
\<close>

definition wf :: "'a element \<Rightarrow> nat \<Rightarrow> 'a StaticVector \<Rightarrow> bool" where
  "wf E CAPACITY v \<longleftrightarrow>
     length (m_storage v) = CAPACITY \<and> m_size v \<le> CAPACITY \<and>
     list_all is_live (take (m_size v) (m_storage v)) \<and>
     (constructor_and_destructor_are_cheap E \<longrightarrow> list_all is_live (m_storage v))"

text \<open>The elements of a vector: the contents of its slots below the size.\<close>

definition live_part :: "'a StaticVector \<Rightarrow> 'a slot list" where
  "live_part v = take (m_size v) (m_storage v)"

text \<open>The values held by the live slots of a list of slots, and the elements of a vector.\<close>

fun slot_values :: "'a slot list \<Rightarrow> 'a list" where
  "slot_values [] = []"
| "slot_values (Raw # slots) = slot_values slots"
| "slot_values (Live x # slots) = x # slot_values slots"

definition elements :: "'a StaticVector \<Rightarrow> 'a list" where
  "elements v = slot_values (live_part v)"

subsection \<open>Two element types for the examples\<close>

text \<open>
  \<open>int\<close> is trivially constructible and destructible, and moving it copies it.
  \<open>std::string\<close> is neither; a string that was moved from is taken to be empty.
\<close>

definition int_element :: "int element" where
  "int_element = \<lparr>trivially_default_constructible = True, trivially_destructible = True,
                   value_initialized = 0, moved_from = (\<lambda>x. x)\<rparr>"

definition string_element :: "string element" where
  "string_element = \<lparr>trivially_default_constructible = False, trivially_destructible = False,
                      value_initialized = [], moved_from = (\<lambda>x. [])\<rparr>"

subsection \<open>The public operations as data\<close>

text \<open>
  To speak of every operation at once, the mutating member functions are listed as a
  datatype and run by \<open>perform\<close>, which keeps the vector a call leaves behind and drops the
  value or iterator it returns. An assignment from another vector of the same type runs in a
  store holding this vector at address 0 and the other at address 1; a self-assignment passes
  address 0 twice. In the cross-capacity operations the other vector has the same element type
  here and another declared capacity.
\<close>

datatype 'a operation =
    Push_back 'a
  | Push_back_rv 'a
  | Emplace_back 'a
  | Pop_back
  | Clear
  | Assign nat 'a
  | Resize nat
  | Reserve nat
  | Shrink_to_fit
  | Insert int 'a
  | Insert_rv int 'a
  | Erase int int
  | Erase_const int int
  | Erase_at int
  | Erase_const_at int
  | Copy_assign "'a StaticVector"
  | Move_assign "'a StaticVector"
  | Self_copy_assign
  | Self_move_assign
  | Copy_assign_other nat "'a StaticVector"
  | Move_assign_other nat "'a StaticVector"

fun perform :: "'a element \<Rightarrow> nat \<Rightarrow> 'a operation \<Rightarrow> 'a StaticVector \<Rightarrow> 'a StaticVector exec" where
  "perform E CAPACITY (Push_back e) v = push_back CAPACITY e v"
| "perform E CAPACITY (Push_back_rv e) v = push_back_rv CAPACITY e v"
| "perform E CAPACITY (Emplace_back e) v = emplace_back CAPACITY e v"
| "perform E CAPACITY Pop_back v = and_then (pop_back E v) (\<lambda>r. ret (snd r))"
| "perform E CAPACITY Clear v = clear E v"
| "perform E CAPACITY (Assign count val) v = assign E CAPACITY count val v"
| "perform E CAPACITY (Resize count) v = resize E CAPACITY count v"
| "perform E CAPACITY (Reserve n) v = reserve CAPACITY n v"
| "perform E CAPACITY Shrink_to_fit v = shrink_to_fit v"
| "perform E CAPACITY (Insert pos val) v =
     and_then (insert_sv E CAPACITY pos val v) (\<lambda>r. ret (fst r))"
| "perform E CAPACITY (Insert_rv pos val) v =
     and_then (insert_rv E CAPACITY pos val v) (\<lambda>r. ret (fst r))"
| "perform E CAPACITY (Erase first lst) v = and_then (erase E first lst v) (\<lambda>r. ret (fst r))"
| "perform E CAPACITY (Erase_const first lst) v =
     and_then (erase_const first lst v) (\<lambda>r. ret (fst r))"
| "perform E CAPACITY (Erase_at pos) v = and_then (erase_at E pos v) (\<lambda>r. ret (fst r))"
| "perform E CAPACITY (Erase_const_at pos) v =
     and_then (erase_const_at pos v) (\<lambda>r. ret (fst r))"
| "perform E CAPACITY (Copy_assign other) v =
     and_then (copy_assign E CAPACITY 0 1 (\<lambda>a. if a = 0 then v else other)) (\<lambda>st. ret (st 0))"
| "perform E CAPACITY (Move_assign other) v =
     and_then (move_assign E CAPACITY 0 1 (\<lambda>a. if a = 0 then v else other)) (\<lambda>st. ret (st 0))"
| "perform E CAPACITY Self_copy_assign v =
     and_then (copy_assign E CAPACITY 0 0 (\<lambda>a. v)) (\<lambda>st. ret (st 0))"
| "perform E CAPACITY Self_move_assign v =
     and_then (move_assign E CAPACITY 0 0 (\<lambda>a. v)) (\<lambda>st. ret (st 0))"
| "perform E CAPACITY (Copy_assign_other OTHER_CAPACITY other) v =
     copy_assign_other E CAPACITY OTHER_CAPACITY (\<lambda>e. e) other v"
| "perform E CAPACITY (Move_assign_other OTHER_CAPACITY other) v =
     and_then (move_assign_other E E CAPACITY OTHER_CAPACITY (\<lambda>e. e) other v)
       (\<lambda>r. ret (fst r))"

text \<open>
  The precondition column of the specification's table of operations (and the bound
  \<open>reserve\<close> asserts); a vector copied or moved from is a well-formed vector of its capacity.
\<close>

fun spec_precondition :: "'a element \<Rightarrow> nat \<Rightarrow> 'a StaticVector \<Rightarrow> 'a operation \<Rightarrow> bool" where
  "spec_precondition E CAPACITY v (Push_back e) \<longleftrightarrow> m_size v < CAPACITY"
| "spec_precondition E CAPACITY v (Push_back_rv e) \<longleftrightarrow> m_size v < CAPACITY"
| "spec_precondition E CAPACITY v (Emplace_back e) \<longleftrightarrow> m_size v < CAPACITY"
| "spec_precondition E CAPACITY v Pop_back \<longleftrightarrow> m_size v > 0"
| "spec_precondition E CAPACITY v Clear \<longleftrightarrow> True"
| "spec_precondition E CAPACITY v (Assign count val) \<longleftrightarrow> count \<le> CAPACITY"
| "spec_precondition E CAPACITY v (Resize count) \<longleftrightarrow> count \<le> CAPACITY"
| "spec_precondition E CAPACITY v (Reserve n) \<longleftrightarrow> n \<le> CAPACITY"
| "spec_precondition E CAPACITY v Shrink_to_fit \<longleftrightarrow> True"
| "spec_precondition E CAPACITY v (Insert pos val) \<longleftrightarrow>
     m_size v < CAPACITY \<and> begin_sv v \<le> pos \<and> pos \<le> end_sv v"
| "spec_precondition E CAPACITY v (Insert_rv pos val) \<longleftrightarrow>
     m_size v < CAPACITY \<and> begin_sv v \<le> pos \<and> pos \<le> end_sv v"
| "spec_precondition E CAPACITY v (Erase first lst) \<longleftrightarrow>
     begin_sv v \<le> first \<and> first \<le> lst \<and> lst \<le> end_sv v"
| "spec_precondition E CAPACITY v (Erase_const first lst) \<longleftrightarrow>
     begin_sv v \<le> first \<and> first \<le> lst \<and> lst \<le> end_sv v"
| "spec_precondition E CAPACITY v (Erase_at pos) \<longleftrightarrow> begin_sv v \<le> pos \<and> pos < end_sv v"
| "spec_precondition E CAPACITY v (Erase_const_at pos) \<longleftrightarrow> begin_sv v \<le> pos \<and> pos < end_sv v"
| "spec_precondition E CAPACITY v (Copy_assign other) \<longleftrightarrow> wf E CAPACITY other"
| "spec_precondition E CAPACITY v (Move_assign other) \<longleftrightarrow> wf E CAPACITY other"
| "spec_precondition E CAPACITY v Self_copy_assign \<longleftrightarrow> True"
| "spec_precondition E CAPACITY v Self_move_assign \<longleftrightarrow> True"
| "spec_precondition E CAPACITY v (Copy_assign_other OTHER_CAPACITY other) \<longleftrightarrow>
     wf E OTHER_CAPACITY other \<and> m_size other \<le> CAPACITY"
| "spec_precondition E CAPACITY v (Move_assign_other OTHER_CAPACITY other) \<longleftrightarrow>
     wf E OTHER_CAPACITY other \<and> m_size other \<le> CAPACITY"

text \<open>The operations that write a slot at or beyond the size by assignment.\<close>

fun grows_by_assignment :: "'a operation \<Rightarrow> bool" where
  "grows_by_assignment (Resize count) = True"
| "grows_by_assignment (Insert pos val) = True"
| "grows_by_assignment (Insert_rv pos val) = True"
| "grows_by_assignment op = False"

text \<open>The constructors, likewise; each yields the new vector.\<close>

datatype 'a construction =
    Default
  | Sized nat 'a
  | Init_list "'a list"
  | Copy "'a StaticVector"
  | Move "'a StaticVector"
  | Copy_other nat "'a StaticVector"
  | Move_other nat "'a StaticVector"

fun construct :: "'a element \<Rightarrow> nat \<Rightarrow> 'a construction \<Rightarrow> 'a StaticVector exec" where
  "construct E CAPACITY Default = ret (StaticVector_default E CAPACITY)"
| "construct E CAPACITY (Sized n init) = StaticVector_sized E CAPACITY n init"
| "construct E CAPACITY (Init_list values) = StaticVector_init_list E CAPACITY values"
| "construct E CAPACITY (Copy other) = StaticVector_copy E CAPACITY other"
| "construct E CAPACITY (Move other) =
     and_then (StaticVector_move E CAPACITY other) (\<lambda>r. ret (fst r))"
| "construct E CAPACITY (Copy_other OTHER_CAPACITY other) =
     StaticVector_copy_other E CAPACITY OTHER_CAPACITY (\<lambda>e. e) other"
| "construct E CAPACITY (Move_other OTHER_CAPACITY other) =
     and_then (StaticVector_move_other E E CAPACITY OTHER_CAPACITY (\<lambda>e. e) other)
       (\<lambda>r. ret (fst r))"

fun spec_construct_precondition :: "'a element \<Rightarrow> nat \<Rightarrow> 'a construction \<Rightarrow> bool" where
  "spec_construct_precondition E CAPACITY Default \<longleftrightarrow> True"
| "spec_construct_precondition E CAPACITY (Sized n init) \<longleftrightarrow> n \<le> CAPACITY"
| "spec_construct_precondition E CAPACITY (Init_list values) \<longleftrightarrow> length values \<le> CAPACITY"
| "spec_construct_precondition E CAPACITY (Copy other) \<longleftrightarrow> wf E CAPACITY other"
| "spec_construct_precondition E CAPACITY (Move other) \<longleftrightarrow> wf E CAPACITY other"
| "spec_construct_precondition E CAPACITY (Copy_other OTHER_CAPACITY other) \<longleftrightarrow>
     wf E OTHER_CAPACITY other \<and> m_size other \<le> CAPACITY"
| "spec_construct_precondition E CAPACITY (Move_other OTHER_CAPACITY other) \<longleftrightarrow>
     wf E OTHER_CAPACITY other \<and> m_size other \<le> CAPACITY"

section \<open>Basic facts\<close>

subsection \<open>Outcomes, sequencing and iteration\<close>

lemma outcome_ret [simp]: "outcome (ret x) = Returned x"
  by (simp add: outcome_def ret_def)

lemma checks_ret [simp]: "checks (ret x) = []"
  by (simp add: checks_def ret_def)

lemma outcome_ub [simp]: "outcome undefined_behaviour = UndefinedBehaviour"
  by (simp add: outcome_def undefined_behaviour_def)

lemma checks_ub [simp]: "checks undefined_behaviour = []"
  by (simp add: checks_def undefined_behaviour_def)

lemma outcome_assert [simp]:
  "outcome (assert c a) = (if c then Returned () else AssertionFailed a)"
  by (simp add: outcome_def assert_def)

lemma checks_assert [simp]: "checks (assert c a) = [a]"
  by (simp add: checks_def assert_def)

lemma outcome_and_then:
  "outcome (and_then m f) =
     (case outcome m of Returned x \<Rightarrow> outcome (f x)
      | AssertionFailed a \<Rightarrow> AssertionFailed a
      | UndefinedBehaviour \<Rightarrow> UndefinedBehaviour)"
  by (simp add: outcome_def and_then_def split: outcome.splits)

lemma checks_and_then:
  "checks (and_then m f) =
     checks m @ (case outcome m of Returned x \<Rightarrow> checks (f x) | _ \<Rightarrow> [])"
  by (simp add: outcome_def checks_def and_then_def split: outcome.splits)

lemma outcome_and_then_Returned [simp]:
  "outcome m = Returned x \<Longrightarrow> outcome (and_then m f) = outcome (f x)"
  by (simp add: outcome_and_then)

lemma checks_and_then_Returned [simp]:
  "outcome m = Returned x \<Longrightarrow> checks (and_then m f) = checks m @ checks (f x)"
  by (simp add: checks_and_then)

lemma outcome_and_then_failed [simp]:
  "outcome m = AssertionFailed a \<Longrightarrow> outcome (and_then m f) = AssertionFailed a"
  by (simp add: outcome_and_then)

lemma outcome_and_then_ub [simp]:
  "outcome m = UndefinedBehaviour \<Longrightarrow> outcome (and_then m f) = UndefinedBehaviour"
  by (simp add: outcome_and_then)

lemma and_then_ret [simp]: "and_then (ret x) f = f x"
  by (simp add: and_then_def ret_def)

lemma for_each_append:
  "for_each (xs @ ys) body s = and_then (for_each xs body s) (for_each ys body)"
proof (induction xs arbitrary: s)
  case Nil
  show ?case by simp
next
  case (Cons x xs)
  show ?case
    by (cases "body x s" rule: prod.exhaust)
       (auto simp: and_then_def Cons.IH split: outcome.splits)
qed

text \<open>A loop invariant over the indices still to be visited.\<close>

lemma for_each_rule:
  assumes "I ks s"
    and "\<And>i rest s. I (i # rest) s \<Longrightarrow> \<exists>s'. outcome (body i s) = Returned s' \<and> I rest s'"
  shows "\<exists>s'. outcome (for_each ks body s) = Returned s' \<and> I [] s'"
  using assms(1)
proof (induction ks arbitrary: s)
  case Nil
  then show ?case by simp
next
  case (Cons i rest)
  from assms(2)[OF Cons.prems] obtain s1 where
    s1: "outcome (body i s) = Returned s1" "I rest s1" by blast
  from Cons.IH[OF s1(2)] s1(1) show ?case by simp
qed

subsection \<open>Appending\<close>

lemma push_back_rv_eq: "push_back_rv = push_back"
  by (intro ext) (simp add: push_back_rv_def push_back_def)

lemma emplace_back_eq: "emplace_back = push_back"
  by (intro ext) (simp add: emplace_back_def push_back_def)

lemma outcome_construct_at:
  "outcome (construct_at idx e v) =
     (if idx < length (m_storage v)
      then Returned (v\<lparr>m_storage := (m_storage v)[idx := Live e]\<rparr>)
      else UndefinedBehaviour)"
  by (simp add: construct_at_def)

lemma checks_construct_at [simp]: "checks (construct_at idx e v) = []"
  by (simp add: construct_at_def)

lemma push_back_outcome:
  "outcome (push_back C e v) =
     (if m_size v < C
      then (if m_size v < length (m_storage v)
            then Returned \<lparr>m_storage = (m_storage v)[m_size v := Live e], m_size = Suc (m_size v)\<rparr>
            else UndefinedBehaviour)
      else AssertionFailed SizeBelowCapacity)"
  by (simp add: push_back_def outcome_and_then outcome_construct_at)

lemma push_back_checks: "checks (push_back C e v) = [SizeBelowCapacity]"
  by (simp add: push_back_def checks_and_then outcome_construct_at split: outcome.splits)

lemma for_each_push_back:
  assumes "length (m_storage v) = C" and "m_size v + length xs \<le> C"
  shows "outcome (for_each xs (push_back C) v) =
           Returned \<lparr>m_storage = take (m_size v) (m_storage v) @ map Live xs @
                                   drop (m_size v + length xs) (m_storage v),
                     m_size = m_size v + length xs\<rparr>"
  using assms
proof (induction xs arbitrary: v)
  case Nil
  then show ?case by simp
next
  case (Cons x xs)
  let ?v1 = "\<lparr>m_storage = (m_storage v)[m_size v := Live x], m_size = Suc (m_size v)\<rparr>"
  from Cons.prems have lt: "m_size v < C" "m_size v < length (m_storage v)" by simp_all
  then have step: "outcome (push_back C x v) = Returned ?v1"
    by (simp add: push_back_outcome)
  have "outcome (for_each xs (push_back C) ?v1) =
          Returned \<lparr>m_storage = take (m_size ?v1) (m_storage ?v1) @ map Live xs @
                                  drop (m_size ?v1 + length xs) (m_storage ?v1),
                    m_size = m_size ?v1 + length xs\<rparr>"
    using Cons.prems by (intro Cons.IH) simp_all
  moreover have "take (Suc (m_size v)) ((m_storage v)[m_size v := Live x]) =
                 take (m_size v) (m_storage v) @ [Live x]"
    using lt(2) by (simp add: take_Suc_conv_app_nth)
  ultimately show ?case
    using step by simp
qed


subsection \<open>The live part and the reverse traversal\<close>

lemma live_part_length:
  "m_size v \<le> length (m_storage v) \<Longrightarrow> live_part v = map Live xs \<Longrightarrow> length xs = m_size v"
  by (metis length_map length_take live_part_def min.absorb2)

lemma live_part_nth:
  assumes "m_size v \<le> length (m_storage v)" and "live_part v = map Live xs" and "k < m_size v"
  shows "m_storage v ! k = Live (xs ! k)"
proof -
  have "length xs = m_size v" using assms(1,2) by (rule live_part_length)
  then have "live_part v ! k = Live (xs ! k)" using assms(2,3) by simp
  then show ?thesis using assms(3) by (simp add: live_part_def)
qed

lemma traverse_down:
  assumes "m_size v \<le> length (m_storage v)" and "live_part v = map Live xs" and "k \<le> m_size v"
  shows "traverse v \<lparr>m_ptr = int k - 1\<rparr> (rend v) = Some (map Returned (rev (take k xs)))"
  using assms(3)
proof (induction k)
  case 0
  show ?case by (subst traverse.simps) (simp add: ri_eq_def rend_def)
next
  case (Suc k)
  then have k: "k < m_size v" by simp
  have len: "length xs = m_size v" using assms(1,2) by (rule live_part_length)
  have slot: "m_storage v ! k = Live (xs ! k)" using assms(1,2) k by (rule live_part_nth)
  have read: "outcome (ri_deref v \<lparr>m_ptr = int k\<rparr>) = Returned (xs ! k)"
    using k assms(1) slot by (simp add: ri_deref_def read_slot_def)
  have next_it: "ri_inc \<lparr>m_ptr = int k\<rparr> = \<lparr>m_ptr = int k - 1\<rparr>"
    by (simp add: ri_inc_def)
  have rest: "traverse v \<lparr>m_ptr = int k - 1\<rparr> (rend v) = Some (map Returned (rev (take k xs)))"
    using Suc by simp
  have "traverse v \<lparr>m_ptr = int k\<rparr> (rend v) =
          Some (Returned (xs ! k) # map Returned (rev (take k xs)))"
    by (subst traverse.simps) (simp add: ri_eq_def next_it rest read, simp add: rend_def)
  moreover have "take (Suc k) xs = take k xs @ [xs ! k]"
    using k len by (simp add: take_Suc_conv_app_nth)
  ultimately show ?case by simp
qed


subsection \<open>Rules for iteration and the copying of elements\<close>

lemma slot_values_map_Live [simp]: "slot_values (map Live xs) = xs"
  by (induction xs) simp_all

lemma live_slots_conv: "list_all is_live slots \<Longrightarrow> slots = map Live (slot_values slots)"
proof (induction slots)
  case Nil
  show ?case by simp
next
  case (Cons s slots)
  then show ?case by (cases s) simp_all
qed

lemma list_all_is_live_map_Live [simp]: "list_all is_live (map Live xs)"
  by (induction xs) simp_all

lemma wf_live_part: "wf E C v \<Longrightarrow> live_part v = map Live (elements v)"
  unfolding wf_def live_part_def elements_def by (intro live_slots_conv) simp

lemma wf_length_elements: "wf E C v \<Longrightarrow> length (elements v) = m_size v"
  by (metis live_part_length wf_def wf_live_part)

lemma for_each_cong:
  "(\<And>i s. i \<in> set is \<Longrightarrow> body i s = body' i s) \<Longrightarrow> for_each is body s = for_each is body' s"
proof (induction "is" arbitrary: s)
  case Nil
  show ?case by simp
next
  case (Cons i rest)
  have "for_each rest body = for_each rest body'"
    using Cons by (intro ext) simp
  then show ?case using Cons.prems by simp
qed

lemma for_each_map: "for_each (map f is) body s = for_each is (\<lambda>i. body (f i)) s"
proof (induction "is" arbitrary: s)
  case Nil
  show ?case by simp
next
  case (Cons i rest)
  have "for_each (map f rest) body = for_each rest (\<lambda>i. body (f i))"
    using Cons by (intro ext) simp
  then show ?case by simp
qed

text \<open>A counting loop: an invariant indexed by the loop counter.\<close>

lemma for_each_upt_rule:
  assumes "P a s" and "a \<le> b"
    and "\<And>k s. a \<le> k \<Longrightarrow> k < b \<Longrightarrow> P k s \<Longrightarrow> \<exists>s'. outcome (body k s) = Returned s' \<and> P (Suc k) s'"
  shows "\<exists>s'. outcome (for_each [a..<b] body s) = Returned s' \<and> P b s'"
proof -
  define I where "I rest s \<longleftrightarrow> (\<exists>k. a \<le> k \<and> k \<le> b \<and> rest = [k..<b] \<and> P k s)" for rest s
  have start: "I [a..<b] s" using assms(1,2) by (auto simp: I_def)
  have step: "\<exists>s'. outcome (body i s) = Returned s' \<and> I rest s'" if "I (i # rest) s" for i rest s
  proof -
    from that obtain k where k: "a \<le> k" "k \<le> b" "i # rest = [k..<b]" "P k s"
      by (auto simp: I_def)
    from k(3) have "k < b" by (cases "k < b") simp_all
    with k(3) have ik: "i = k" "rest = [Suc k..<b]" by (simp_all add: upt_conv_Cons)
    from assms(3)[OF k(1) \<open>k < b\<close> k(4)] obtain s' where
      s': "outcome (body k s) = Returned s'" "P (Suc k) s'" by blast
    have "a \<le> Suc k \<and> Suc k \<le> b \<and> rest = [Suc k..<b] \<and> P (Suc k) s'"
      using k(1) \<open>k < b\<close> ik(2) s'(2) by simp
    then have "I rest s'" unfolding I_def by blast
    with s'(1) ik(1) show ?thesis by blast
  qed
  have "\<exists>s'. outcome (for_each [a..<b] body s) = Returned s' \<and> I [] s'"
    using start step by (rule for_each_rule[where I = I and body = body])
  then obtain s' where
    "outcome (for_each [a..<b] body s) = Returned s'" "I [] s'" by blast
  moreover have "P b s'"
  proof -
    from \<open>I [] s'\<close> obtain k where k: "a \<le> k" "k \<le> b" "[] = [k..<b]" "P k s'"
      unfolding I_def by blast
    from k(3) have "[k..<b] = []" by simp
    then have "b \<le> k" by (cases "k < b") (simp_all add: upt_conv_Cons)
    with k(2,4) show ?thesis by simp
  qed
  ultimately show ?thesis by blast
qed

text \<open>The same for a loop that counts down from \<open>b\<close> to \<open>a + 1\<close>.\<close>

lemma for_each_rev_upt_rule:
  assumes "P b s" and "a \<le> b"
    and "\<And>k s. a \<le> k \<Longrightarrow> k < b \<Longrightarrow> P (Suc k) s \<Longrightarrow>
           \<exists>s'. outcome (body (Suc k) s) = Returned s' \<and> P k s'"
  shows "\<exists>s'. outcome (for_each (rev [Suc a..<Suc b]) body s) = Returned s' \<and> P a s'"
proof -
  define I where "I rest s \<longleftrightarrow> (\<exists>k. a \<le> k \<and> k \<le> b \<and> rest = rev [Suc a..<Suc k] \<and> P k s)"
    for rest s
  have start: "I (rev [Suc a..<Suc b]) s" using assms(1,2) by (auto simp: I_def)
  have step: "\<exists>s'. outcome (body i s) = Returned s' \<and> I rest s'" if "I (i # rest) s" for i rest s
  proof -
    from that obtain k where k: "a \<le> k" "k \<le> b" "i # rest = rev [Suc a..<Suc k]" "P k s"
      by (auto simp: I_def)
    from k(3) have "a < k" by (cases "a < k") simp_all
    then obtain j where j: "k = Suc j" "a \<le> j" by (cases k) simp_all
    with k(3) have ij: "i = Suc j" "rest = rev [Suc a..<Suc j]" by simp_all
    from j k(2) have "j < b" by simp
    from assms(3)[OF j(2) \<open>j < b\<close>] k(4) j(1) obtain s' where
      s': "outcome (body (Suc j) s) = Returned s'" "P j s'" by blast
    have "a \<le> j \<and> j \<le> b \<and> rest = rev [Suc a..<Suc j] \<and> P j s'"
      using j(2) \<open>j < b\<close> ij(2) s'(2) by simp
    then have "I rest s'" unfolding I_def by blast
    with s'(1) ij(1) show ?thesis by blast
  qed
  have "\<exists>s'. outcome (for_each (rev [Suc a..<Suc b]) body s) = Returned s' \<and> I [] s'"
    using start step by (rule for_each_rule[where I = I and body = body])
  then obtain s' where
    "outcome (for_each (rev [Suc a..<Suc b]) body s) = Returned s'" "I [] s'" by blast
  moreover have "P a s'"
  proof -
    from \<open>I [] s'\<close> obtain k where k: "a \<le> k" "k \<le> b" "[] = rev [Suc a..<Suc k]" "P k s'"
      unfolding I_def by blast
    from k(3) have "[Suc a..<Suc k] = []" by simp
    then have "k \<le> a" by (cases "Suc a \<le> k") (simp_all split: if_splits)
    with k(1,4) show ?thesis by simp
  qed
  ultimately show ?thesis by blast
qed

lemma outcome_read_slot_live:
  "k < length (m_storage v) \<Longrightarrow> m_storage v ! k = Live x \<Longrightarrow> read_slot v (int k) = ret x"
  by (simp add: read_slot_def)

lemma convert_elements_conv:
  assumes "m_size other \<le> length (m_storage other)" and "live_part other = map Live xs"
  shows "convert_elements C conv other v = for_each (map conv xs) (push_back C) v"
proof -
  have len: "length xs = m_size other" using assms by (rule live_part_length)
  have "convert_elements C conv other v =
          for_each [0..<m_size other] (\<lambda>i. push_back C (conv (xs ! i))) v"
    unfolding convert_elements_def
  proof (rule for_each_cong)
    fix i s assume "i \<in> set [0..<m_size other]"
    then have i: "i < m_size other" by simp
    then have "m_storage other ! i = Live (xs ! i)" using assms by (intro live_part_nth)
    then have "read_slot other (int i) = ret (xs ! i)"
      using i assms(1) by (intro outcome_read_slot_live) simp_all
    then show "and_then (read_slot other (int i)) (\<lambda>e. push_back_rv C (conv e) s) =
               push_back C (conv (xs ! i)) s" by (simp add: push_back_rv_eq)
  qed
  also have "\<dots> = for_each (map (\<lambda>i. conv (xs ! i)) [0..<m_size other]) (push_back C) v"
    by (simp add: for_each_map)
  also have "map (\<lambda>i. conv (xs ! i)) [0..<m_size other] = map conv xs"
    using len by (simp add: list_eq_iff_nth_eq)
  finally show ?thesis .
qed

subsection \<open>The assertions a call evaluates\<close>

lemma checks_for_each_subset:
  assumes "\<And>i s. set (checks (body i s)) \<subseteq> A"
  shows "set (checks (for_each ks body s)) \<subseteq> A"
proof (induction ks arbitrary: s)
  case Nil
  show ?case by simp
next
  case (Cons i rest)
  show ?case
    using assms[of i s] Cons.IH
    by (auto simp: checks_and_then split: outcome.splits)
qed

lemma checks_read_slot [simp]: "checks (read_slot v p) = []"
  by (simp add: read_slot_def split: slot.splits)

lemma checks_assign_slot [simp]: "checks (assign_slot p e v) = []"
  by (simp add: assign_slot_def)

lemma checks_destroy_at [simp]: "checks (destroy_at E idx v) = []"
  by (simp add: destroy_at_def)

lemma checks_move_assign_slot [simp]: "checks (move_assign_slot E dst src v) = []"
  by (simp add: move_assign_slot_def checks_and_then split: outcome.splits)

lemma checks_clear [simp]: "checks (clear E v) = []"
proof -
  have "set (checks (for_each [0..<m_size v] (destroy_at E) v)) \<subseteq> {}"
    by (rule checks_for_each_subset) simp
  then show ?thesis
    by (simp add: clear_def checks_and_then split: outcome.splits)
qed

lemma copy_elements_eq: "copy_elements C other v = convert_elements C (\<lambda>e. e) other v"
  by (simp add: copy_elements_def convert_elements_def push_back_rv_eq)

lemma checks_convert_elements:
  "set (checks (convert_elements C conv other v)) \<subseteq> {SizeBelowCapacity}"
  unfolding convert_elements_def
  by (rule checks_for_each_subset)
     (auto simp: checks_and_then push_back_checks push_back_rv_eq split: outcome.splits)

lemma checks_move_elements: "set (checks (move_elements E' C conv s)) \<subseteq> {SizeBelowCapacity}"
  unfolding move_elements_def
  by (rule checks_for_each_subset)
     (auto simp: checks_and_then push_back_checks push_back_rv_eq split: outcome.splits)

subsection \<open>The moving loop\<close>

lemma append_update_drop:
  assumes "n < length ys" and "length xs = n"
  shows "(xs @ drop n ys)[n := x] = xs @ x # drop (Suc n) ys"
proof -
  have "drop n ys = ys ! n # drop (Suc n) ys"
    using assms(1) by (simp add: Cons_nth_drop_Suc)
  then show ?thesis using assms(2) by (simp add: list_update_append)
qed

lemma append_nth_drop:
  assumes "n < length ys" and "length xs = n"
  shows "(xs @ drop n ys) ! n = ys ! n"
  using assms by (simp add: nth_append)

lemma move_elements_run:
  assumes src: "m_size other \<le> length (m_storage other)" "live_part other = map Live xs"
    and dst: "length (m_storage v) = C" "m_size v + length xs \<le> C"
  shows "outcome (move_elements E' C conv (v, other)) =
           Returned
             (\<lparr>m_storage = take (m_size v) (m_storage v) @ map Live (map conv xs) @
                             drop (m_size v + length xs) (m_storage v),
               m_size = m_size v + length xs\<rparr>,
              other\<lparr>m_storage := map Live (map (moved_from E') xs) @
                                    drop (m_size other) (m_storage other)\<rparr>)"
proof -
  let ?m = "m_size v" and ?st = "m_storage v" and ?sto = "m_storage other"
  let ?n = "m_size other"
  let ?D = "\<lambda>k. \<lparr>m_storage = (take ?m ?st @ map Live (map conv (take k xs))) @ drop (?m + k) ?st,
                  m_size = ?m + k\<rparr>"
  let ?O = "\<lambda>k. other\<lparr>m_storage := map Live (map (moved_from E') (take k xs)) @ drop k ?sto\<rparr>"
  let ?P = "\<lambda>k s. s = (?D k, ?O k)"
  let ?body = "\<lambda>i s. and_then (read_slot (snd s) (int i)) (\<lambda>e.
               and_then (push_back_rv C (conv e) (fst s)) (\<lambda>v'.
               ret (v', leave_moved_from E' (int i) e (snd s))))"
  have len: "length xs = ?n" using src by (rule live_part_length)
  have start: "?P 0 (v, other)" by simp
  have step: "\<exists>s'. outcome (?body k s) = Returned s' \<and> ?P (Suc k) s'"
    if "k < ?n" "?P k s" for k s
  proof -
    from that(2) have s: "fst s = ?D k" "snd s = ?O k" by simp_all
    have k: "k < length xs" "k < length ?sto" "?m + k < length ?st"
      using that(1) len src(1) dst by simp_all
    have lk: "length (map Live (map (moved_from E') (take k xs))) = k" using k(1) by simp
    have slot: "?sto ! k = Live (xs ! k)" using src that(1) by (rule live_part_nth)
    have "m_storage (?O k) ! k = Live (xs ! k)"
      using append_nth_drop[OF k(2) lk] slot by simp
    moreover have "k < length (m_storage (?O k))" using k by simp
    ultimately have read: "read_slot (?O k) (int k) = ret (xs ! k)"
      by (intro outcome_read_slot_live)
    have ld: "length (take ?m ?st @ map Live (map conv (take k xs))) = ?m + k"
      using k by simp
    have push: "outcome (push_back_rv C (conv (xs ! k)) (?D k)) = Returned (?D (Suc k))"
      using k dst append_update_drop[OF k(3) ld]
      by (simp add: push_back_rv_eq push_back_outcome take_Suc_conv_app_nth)
    have left: "leave_moved_from E' (int k) (xs ! k) (?O k) = ?O (Suc k)"
      using k append_update_drop[OF k(2) lk]
      by (simp add: leave_moved_from_def take_Suc_conv_app_nth)
    show ?thesis
      using read push left s by (simp add: outcome_and_then)
  qed
  have "\<exists>s'. outcome (for_each [0..<?n] ?body (v, other)) = Returned s' \<and> ?P ?n s'"
    using start by (rule for_each_upt_rule[where P = ?P]) (use step in simp_all)
  then show ?thesis
    using len by (simp add: move_elements_def)
qed

subsection \<open>Clearing and moving between well-formed vectors\<close>

lemma list_all_is_live_map_Live_comp [simp]: "list_all is_live (map (Live \<circ> f) xs)"
  by (induction xs) simp_all

lemma wf_cheap_destructible:
  "constructor_and_destructor_are_cheap E \<Longrightarrow> trivially_destructible E"
  by (simp add: constructor_and_destructor_are_cheap_def)

lemma clear_run:
  assumes "wf E C v"
  shows "\<exists>v'. outcome (clear E v) = Returned v' \<and> m_size v' = 0 \<and> wf E C v'"
proof (cases "trivially_destructible E")
  case True
  then have "outcome (clear E v) = Returned (v\<lparr>m_size := 0\<rparr>)"
    by (simp add: clear_def)
  moreover have "wf E C (v\<lparr>m_size := 0\<rparr>)" using assms by (simp add: wf_def)
  ultimately show ?thesis by simp
next
  case False
  then have not_cheap: "\<not> constructor_and_destructor_are_cheap E"
    using wf_cheap_destructible by blast
  let ?P = "\<lambda>k s. length (m_storage s) = C \<and> m_size s = m_size v \<and>
                   (\<forall>i. k \<le> i \<and> i < m_size v \<longrightarrow> is_live (m_storage s ! i))"
  have start: "?P 0 v"
    using assms by (simp add: wf_def list_all_length)
  have step: "\<exists>s'. outcome (destroy_at E k s) = Returned s' \<and> ?P (Suc k) s'"
    if "k < m_size v" "?P k s" for k s
  proof -
    from that assms have "k < length (m_storage s)" "is_live (m_storage s ! k)"
      by (simp_all add: wf_def)
    then have "outcome (destroy_at E k s) = Returned (s\<lparr>m_storage := (m_storage s)[k := Raw]\<rparr>)"
      using not_cheap by (simp add: destroy_at_def)
    moreover have "?P (Suc k) (s\<lparr>m_storage := (m_storage s)[k := Raw]\<rparr>)"
      using that(2) by simp
    ultimately show ?thesis by blast
  qed
  have "\<exists>s'. outcome (for_each [0..<m_size v] (destroy_at E) v) = Returned s' \<and> ?P (m_size v) s'"
    using start by (rule for_each_upt_rule[where P = ?P]) (use step in simp_all)
  then obtain s' where s': "outcome (for_each [0..<m_size v] (destroy_at E) v) = Returned s'"
    "length (m_storage s') = C" by blast
  have "outcome (clear E v) = Returned (s'\<lparr>m_size := 0\<rparr>)"
    using False s'(1) by (simp add: clear_def)
  moreover have "wf E C (s'\<lparr>m_size := 0\<rparr>)"
    using s'(2) not_cheap by (simp add: wf_def)
  ultimately show ?thesis by simp
qed

lemma wf_default: "wf E C (StaticVector_default E C)"
  by (simp add: wf_def StaticVector_default_def UninitializedArray_def list_all_length)

lemma move_elements_wf:
  assumes "wf E' C' other" and "wf E C v" and "m_size v = 0" and "m_size other \<le> C"
  shows "\<exists>d s'. outcome (move_elements E' C conv (v, other)) = Returned (d, s') \<and>
           m_size s' = m_size other \<and>
           live_part s' = map Live (map (moved_from E') (elements other)) \<and>
           live_part d = map Live (map conv (elements other)) \<and>
           m_size d = m_size other \<and> wf E C d \<and> wf E' C' s'"
proof -
  let ?xs = "elements other"
  have src: "m_size other \<le> length (m_storage other)" "live_part other = map Live ?xs"
    using assms(1) wf_live_part by (simp_all add: wf_def)
  have len: "length ?xs = m_size other" using assms(1) by (rule wf_length_elements)
  have dst: "length (m_storage v) = C" "m_size v + length ?xs \<le> C"
    using assms(2,3,4) len by (simp_all add: wf_def)
  let ?d = "\<lparr>m_storage = take (m_size v) (m_storage v) @ map Live (map conv ?xs) @
                          drop (m_size v + length ?xs) (m_storage v),
             m_size = m_size v + length ?xs\<rparr>"
  let ?s = "other\<lparr>m_storage := map Live (map (moved_from E') ?xs) @
                                drop (m_size other) (m_storage other)\<rparr>"
  have run: "outcome (move_elements E' C conv (v, other)) = Returned (?d, ?s)"
    using src dst by (rule move_elements_run)
  have cheap_d: "list_all is_live (m_storage v) \<Longrightarrow> list_all is_live (drop n (m_storage v))" for n
    by (simp add: list_all_length)
  have cheap_s: "list_all is_live (m_storage other) \<Longrightarrow> list_all is_live (drop n (m_storage other))"
    for n by (simp add: list_all_length)
  have "wf E C ?d"
    using assms(2,3,4) len cheap_d by (simp add: wf_def)
  moreover have "wf E' C' ?s"
    using assms(1) len cheap_s by (simp add: wf_def)
  moreover have "live_part ?s = map Live (map (moved_from E') ?xs)"
    using len by (simp add: live_part_def)
  moreover have "live_part ?d = map Live (map conv ?xs)"
    using len assms(3) by (simp add: live_part_def)
  ultimately show ?thesis
    using run len assms(3) by simp
qed

lemma not_in_checks_convert_elements:
  "SizeFitsCapacity \<notin> set (checks (convert_elements C conv other v))"
  using checks_convert_elements[of C conv other v] by auto

lemma not_in_checks_move_elements:
  "SizeFitsCapacity \<notin> set (checks (move_elements E' C conv s))"
  using checks_move_elements[of E' C conv s] by auto

lemma not_in_checks_clear_copy:
  "SizeFitsCapacity \<notin> set (checks (and_then (clear E v) (convert_elements C conv other)))"
  by (simp add: checks_and_then not_in_checks_convert_elements split: outcome.splits)

lemma not_in_checks_clear_move:
  "SizeFitsCapacity \<notin>
     set (checks (and_then (clear E v) (\<lambda>v'. move_elements E' C conv (v', other))))"
  by (simp add: checks_and_then not_in_checks_move_elements split: outcome.splits)

subsection \<open>Overflowing the capacity\<close>


lemma for_each_const_push_back:
  "for_each [0..<n] (\<lambda>i. push_back C e) v = for_each (replicate n e) (push_back C) v"
proof -
  have "for_each (map (\<lambda>i. e) [0..<n]) (push_back C) v = for_each [0..<n] (\<lambda>i. push_back C e) v"
    by (rule for_each_map)
  moreover have "map (\<lambda>i. e) [0..<n] = replicate n e"
    by (simp add: map_replicate_const)
  ultimately show ?thesis by simp
qed

lemma default_storage [simp]:
  "length (m_storage (StaticVector_default E C)) = C" "m_size (StaticVector_default E C) = 0"
  by (simp_all add: StaticVector_default_def UninitializedArray_def)



subsection \<open>Well-formedness is preserved at the end of the vector\<close>

lemma wf_slot_live: "wf E C v \<Longrightarrow> i < m_size v \<Longrightarrow> is_live (m_storage v ! i)"
  by (simp add: wf_def list_all_length)

lemma wfI:
  assumes "length (m_storage v) = C" and "m_size v \<le> C"
    and "\<And>i. i < m_size v \<Longrightarrow> is_live (m_storage v ! i)"
    and "constructor_and_destructor_are_cheap E \<Longrightarrow> (\<And>i. i < C \<Longrightarrow> is_live (m_storage v ! i))"
  shows "wf E C v"
  using assms by (auto simp: wf_def list_all_length)

lemma wf_cheap_live:
  "wf E C v \<Longrightarrow> constructor_and_destructor_are_cheap E \<Longrightarrow> i < C \<Longrightarrow> is_live (m_storage v ! i)"
  by (simp add: wf_def list_all_length)

lemma wf_length: "wf E C v \<Longrightarrow> length (m_storage v) = C"
  by (simp add: wf_def)

lemma wf_size: "wf E C v \<Longrightarrow> m_size v \<le> C"
  by (simp add: wf_def)

lemma is_live_update: "is_live ((st[i := Live x]) ! j) \<longleftrightarrow> (if i = j \<and> i < length st then True else is_live (st ! j))"
  by (cases "i = j") (simp_all add: list_update_beyond not_less)

lemma take_Suc_snoc: "k < length st \<Longrightarrow> st ! k = y \<Longrightarrow> take (Suc k) st = take k st @ [y]"
  by (simp add: take_Suc_conv_app_nth)

lemma push_back_wf:
  assumes "wf E C v" and "m_size v < C"
  shows "\<exists>v'. outcome (push_back C e v) = Returned v' \<and> wf E C v' \<and>
              m_size v' = Suc (m_size v) \<and> live_part v' = live_part v @ [Live e]"
proof -
  let ?v' = "\<lparr>m_storage = (m_storage v)[m_size v := Live e], m_size = Suc (m_size v)\<rparr>"
  have len: "length (m_storage v) = C" using assms(1) by (rule wf_length)
  then have run: "outcome (push_back C e v) = Returned ?v'"
    using assms(2) by (simp add: push_back_outcome)
  have "wf E C ?v'"
  proof (rule wfI)
    show "length (m_storage ?v') = C" using len by simp
    show "m_size ?v' \<le> C" using assms(2) by simp
    show "is_live (m_storage ?v' ! i)" if "i < m_size ?v'" for i
      using that wf_slot_live[OF assms(1), of i] len assms(2)
      by (cases "i = m_size v") simp_all
    show "is_live (m_storage ?v' ! i)" if "constructor_and_destructor_are_cheap E" "i < C" for i
      using that wf_cheap_live[OF assms(1), of i] len
      by (cases "i = m_size v") simp_all
  qed
  moreover have "live_part ?v' = live_part v @ [Live e]"
    using len assms(2) by (simp add: live_part_def take_Suc_conv_app_nth)
  ultimately show ?thesis using run by simp
qed

lemma for_each_push_back_wf:
  assumes "wf E C v" and "m_size v + length xs \<le> C"
  shows "\<exists>v'. outcome (for_each xs (push_back C) v) = Returned v' \<and> wf E C v' \<and>
              m_size v' = m_size v + length xs \<and> live_part v' = live_part v @ map Live xs"
  using assms
proof (induction xs arbitrary: v)
  case Nil
  then show ?case by simp
next
  case (Cons x xs)
  then have "m_size v < C" by simp
  from push_back_wf[OF Cons.prems(1) this, of x] obtain v1 where
    v1: "outcome (push_back C x v) = Returned v1" "wf E C v1" "m_size v1 = Suc (m_size v)"
      "live_part v1 = live_part v @ [Live x]" by blast
  from Cons.IH[OF v1(2)] v1(3) Cons.prems(2) obtain v' where
    "outcome (for_each xs (push_back C) v1) = Returned v'" "wf E C v'"
    "m_size v' = m_size v1 + length xs" "live_part v' = live_part v1 @ map Live xs" by auto
  with v1 show ?case by simp
qed

lemma pop_back_wf:
  assumes "wf E C v" and "m_size v > 0"
  shows "\<exists>x v'. outcome (pop_back E v) = Returned (x, v') \<and> wf E C v' \<and>
              m_size v' = m_size v - 1 \<and> live_part v = live_part v' @ [Live x]"
proof -
  let ?k = "m_size v - 1"
  let ?v1 = "v\<lparr>m_size := ?k\<rparr>"
  have len: "length (m_storage v) = C" using assms(1) by (rule wf_length)
  have k: "?k < m_size v" "?k < C" using assms wf_size[OF assms(1)] by simp_all
  from wf_slot_live[OF assms(1) k(1)] obtain x where x: "m_storage v ! ?k = Live x"
    by (cases "m_storage v ! ?k") simp_all
  have slot_read: "read_slot ?v1 (int ?k) = ret x"
    by (rule outcome_read_slot_live) (use x k len in simp_all)
  have size1: "m_size ?v1 = ?k" by simp
  have read: "subscript ?v1 (m_size ?v1) = ret x"
    unfolding subscript_def size1 by (rule slot_read)
  let ?v2 = "leave_moved_from E (int ?k) x ?v1"
  have st2: "m_storage ?v2 = (m_storage v)[?k := Live (moved_from E x)]" "m_size ?v2 = ?k"
    by (simp_all add: leave_moved_from_def)
  let ?v3 = "if constructor_and_destructor_are_cheap E then ?v2
             else ?v2\<lparr>m_storage := (m_storage ?v2)[?k := Raw]\<rparr>"
  have destroy: "outcome (destroy_at E ?k ?v2) = Returned ?v3"
    using k len st2 by (simp add: destroy_at_def)
  have run: "outcome (pop_back E v) = Returned (x, ?v3)"
    using assms(2) read destroy by (simp add: pop_back_def Let_def outcome_and_then)
  have sz3: "m_size ?v3 = ?k" and len3: "length (m_storage ?v3) = C"
    using st2 len by simp_all
  have same: "m_storage ?v3 ! i = m_storage v ! i" if "i \<noteq> ?k" for i
    using that st2 by simp
  have "wf E C ?v3"
  proof (rule wfI)
    show "length (m_storage ?v3) = C" by (rule len3)
    show "m_size ?v3 \<le> C" using sz3 k by simp
    show "is_live (m_storage ?v3 ! i)" if "i < m_size ?v3" for i
    proof -
      from that sz3 have "i < ?k" by simp
      then have "i \<noteq> ?k" "i < m_size v" by simp_all
      with same[of i] wf_slot_live[OF assms(1)] show ?thesis by simp
    qed
    show "is_live (m_storage ?v3 ! i)" if "constructor_and_destructor_are_cheap E" "i < C" for i
    proof (cases "i = ?k")
      case True
      then show ?thesis using that k len st2 by simp
    next
      case False
      with same[of i] wf_cheap_live[OF assms(1) that] show ?thesis by simp
    qed
  qed
  moreover have "live_part v = live_part ?v3 @ [Live x]"
  proof -
    have "take ?k (m_storage ?v3) = take ?k (m_storage v)"
      using st2 by simp
    moreover have "take (Suc ?k) (m_storage v) = take ?k (m_storage v) @ [Live x]"
      by (rule take_Suc_snoc) (use k len x in simp_all)
    moreover have "Suc ?k = m_size v" using assms(2) by simp
    ultimately have "take (m_size v) (m_storage v) = take ?k (m_storage ?v3) @ [Live x]"
      by (simp del: One_nat_def)
    then show ?thesis unfolding live_part_def sz3 .
  qed
  ultimately show ?thesis using run sz3 by blast
qed

subsection \<open>Erasing\<close>

lemma live_slot_value: "is_live sl \<Longrightarrow> \<exists>x. sl = Live x"
  by (cases sl) simp_all

lemma move_assign_slot_run:
  assumes "0 \<le> p" and "0 \<le> q"
    and "nat p < length (m_storage v)" and "nat q < length (m_storage v)"
    and "m_storage v ! nat q = Live x" and "is_live (m_storage v ! nat p)"
  shows "outcome (move_assign_slot E p q v) =
           Returned (v\<lparr>m_storage := (m_storage v)[nat p := Live x, nat q := Live (moved_from E x)]\<rparr>)"
  using assms
  by (simp add: move_assign_slot_def read_slot_def assign_slot_def leave_moved_from_def
        outcome_and_then)

lemma move_assign_slot_raw:
  assumes "0 \<le> q" and "nat q < length (m_storage v)" and "m_storage v ! nat q = Live x"
    and "\<not> (0 \<le> p \<and> nat p < length (m_storage v) \<and> is_live (m_storage v ! nat p))"
  shows "outcome (move_assign_slot E p q v) = UndefinedBehaviour"
  using assms
  by (simp add: move_assign_slot_def read_slot_def assign_slot_def outcome_and_then)

text \<open>Moving a range of live slots to the left keeps every live slot live.\<close>

lemma std_move_live:
  assumes "wf E C v" and "0 \<le> d" and "d \<le> f" and "f \<le> l" and "l \<le> int (m_size v)"
  shows "\<exists>v'. outcome (std_move E f l d v) = Returned v' \<and> m_size v' = m_size v \<and>
              length (m_storage v') = C \<and>
              (\<forall>i<C. is_live (m_storage v ! i) \<longrightarrow> is_live (m_storage v' ! i))"
proof -
  let ?P = "\<lambda>k s. m_size s = m_size v \<and> length (m_storage s) = C \<and>
                   (\<forall>i<C. is_live (m_storage v ! i) \<longrightarrow> is_live (m_storage s ! i))"
  let ?body = "\<lambda>k. move_assign_slot E (d + int k) (f + int k)"
  have len: "length (m_storage v) = C" and sz: "m_size v \<le> C"
    using assms(1) by (simp_all add: wf_def)
  have start: "?P 0 v" using len by simp
  have step: "\<exists>s'. outcome (?body k s) = Returned s' \<and> ?P (Suc k) s'"
    if "k < nat (l - f)" "?P k s" for k s
  proof -
    let ?p = "d + int k" and ?q = "f + int k"
    have q: "0 \<le> ?q" "nat ?q < m_size v" using that(1) assms(2-5) by simp_all
    have p: "0 \<le> ?p" "nat ?p < m_size v" using that(1) assms(2-5) by simp_all
    have inC: "nat ?q < C" "nat ?p < C" using q p sz by simp_all
    have "is_live (m_storage s ! nat ?q)" "is_live (m_storage s ! nat ?p)"
      using that(2) inC wf_slot_live[OF assms(1) q(2)] wf_slot_live[OF assms(1) p(2)] by simp_all
    then obtain x where x: "m_storage s ! nat ?q = Live x" and lp: "is_live (m_storage s ! nat ?p)"
      using live_slot_value by blast
    let ?s' = "s\<lparr>m_storage := (m_storage s)[nat ?p := Live x, nat ?q := Live (moved_from E x)]\<rparr>"
    have "outcome (?body k s) = Returned ?s'"
      using p(1) q(1) inC that(2) x lp by (intro move_assign_slot_run) simp_all
    moreover have "?P (Suc k) ?s'"
      using that(2) by (auto simp: is_live_update)
    ultimately show ?thesis by blast
  qed
  have "\<exists>s'. outcome (for_each [0..<nat (l - f)] ?body v) = Returned s' \<and> ?P (nat (l - f)) s'"
    using start by (rule for_each_upt_rule[where P = ?P]) (use step in simp_all)
  then show ?thesis
    using assms(4) by (simp add: std_move_def)
qed

lemma erase_wf:
  assumes "wf E C v" and "0 \<le> first" and "first \<le> lst" and "lst \<le> int (m_size v)"
  shows "\<exists>v'. outcome (erase E first lst v) = Returned (v', first) \<and> wf E C v' \<and>
              m_size v' = m_size v - nat (lst - first)"
proof -
  have "lst \<le> int (m_size v)" "int (m_size v) \<le> int (m_size v)" using assms(4) by simp_all
  from std_move_live[OF assms(1,2) _ this] assms(3) obtain v1 where
    v1: "outcome (std_move E lst (int (m_size v)) first v) = Returned v1"
      "m_size v1 = m_size v" "length (m_storage v1) = C"
      "\<forall>i<C. is_live (m_storage v ! i) \<longrightarrow> is_live (m_storage v1 ! i)"
    by auto
  let ?n = "nat (lst - first)"
  let ?v' = "v1\<lparr>m_size := m_size v1 - ?n\<rparr>"
  have n: "?n \<le> m_size v" using assms(2-4) by simp
  have run: "outcome (erase E first lst v) = Returned (?v', first)"
    using v1(1,2) assms(3) n by (simp add: erase_def end_sv_def Let_def outcome_and_then)
  have sz: "m_size v \<le> C" using assms(1) by (rule wf_size)
  have "wf E C ?v'"
  proof (rule wfI)
    show "length (m_storage ?v') = C" using v1(3) by simp
    show "m_size ?v' \<le> C" using v1(2) sz by simp
    show "is_live (m_storage ?v' ! i)" if "i < m_size ?v'" for i
    proof -
      from that v1(2) have "i < m_size v" by simp
      with wf_slot_live[OF assms(1) this] v1(4) sz show ?thesis by simp
    qed
    show "is_live (m_storage ?v' ! i)" if "constructor_and_destructor_are_cheap E" "i < C" for i
      using wf_cheap_live[OF assms(1) that] v1(4) that(2) by simp
  qed
  then show ?thesis using run v1(2) by simp
qed

lemma checks_copy_assign_slot [simp]: "checks (copy_assign_slot dst src v) = []"
  by (simp add: copy_assign_slot_def checks_and_then split: outcome.splits)

lemma copy_assign_slot_run:
  assumes "0 \<le> p" and "0 \<le> q"
    and "nat p < length (m_storage v)" and "nat q < length (m_storage v)"
    and "m_storage v ! nat q = Live x" and "is_live (m_storage v ! nat p)"
  shows "outcome (copy_assign_slot p q v) =
           Returned (v\<lparr>m_storage := (m_storage v)[nat p := Live x]\<rparr>)"
  using assms
  by (simp add: copy_assign_slot_def read_slot_def assign_slot_def outcome_and_then)

text \<open>Copying a range of live slots to the left keeps every live slot live.\<close>

lemma std_move_const_live:
  assumes "wf E C v" and "0 \<le> d" and "d \<le> f" and "f \<le> l" and "l \<le> int (m_size v)"
  shows "\<exists>v'. outcome (std_move_const f l d v) = Returned v' \<and> m_size v' = m_size v \<and>
              length (m_storage v') = C \<and>
              (\<forall>i<C. is_live (m_storage v ! i) \<longrightarrow> is_live (m_storage v' ! i))"
proof -
  let ?P = "\<lambda>k s. m_size s = m_size v \<and> length (m_storage s) = C \<and>
                   (\<forall>i<C. is_live (m_storage v ! i) \<longrightarrow> is_live (m_storage s ! i))"
  let ?body = "\<lambda>k. copy_assign_slot (d + int k) (f + int k)"
  have len: "length (m_storage v) = C" and sz: "m_size v \<le> C"
    using assms(1) by (simp_all add: wf_def)
  have start: "?P 0 v" using len by simp
  have step: "\<exists>s'. outcome (?body k s) = Returned s' \<and> ?P (Suc k) s'"
    if "k < nat (l - f)" "?P k s" for k s
  proof -
    let ?p = "d + int k" and ?q = "f + int k"
    have q: "0 \<le> ?q" "nat ?q < m_size v" using that(1) assms(2-5) by simp_all
    have p: "0 \<le> ?p" "nat ?p < m_size v" using that(1) assms(2-5) by simp_all
    have inC: "nat ?q < C" "nat ?p < C" using q p sz by simp_all
    have "is_live (m_storage s ! nat ?q)" "is_live (m_storage s ! nat ?p)"
      using that(2) inC wf_slot_live[OF assms(1) q(2)] wf_slot_live[OF assms(1) p(2)] by simp_all
    then obtain x where x: "m_storage s ! nat ?q = Live x" and lp: "is_live (m_storage s ! nat ?p)"
      using live_slot_value by blast
    let ?s' = "s\<lparr>m_storage := (m_storage s)[nat ?p := Live x]\<rparr>"
    have "outcome (?body k s) = Returned ?s'"
      using p(1) q(1) inC that(2) x lp by (intro copy_assign_slot_run) simp_all
    moreover have "?P (Suc k) ?s'"
      using that(2) by (auto simp: is_live_update)
    ultimately show ?thesis by blast
  qed
  have "\<exists>s'. outcome (for_each [0..<nat (l - f)] ?body v) = Returned s' \<and> ?P (nat (l - f)) s'"
    using start by (rule for_each_upt_rule[where P = ?P]) (use step in simp_all)
  then show ?thesis
    using assms(4) by (simp add: std_move_const_def)
qed

lemma erase_const_wf:
  assumes "wf E C v" and "0 \<le> first" and "first \<le> lst" and "lst \<le> int (m_size v)"
  shows "\<exists>v'. outcome (erase_const first lst v) = Returned (v', first) \<and> wf E C v' \<and>
              m_size v' = m_size v - nat (lst - first)"
proof -
  have "lst \<le> int (m_size v)" "int (m_size v) \<le> int (m_size v)" using assms(4) by simp_all
  from std_move_const_live[OF assms(1,2) _ this] assms(3) obtain v1 where
    v1: "outcome (std_move_const lst (int (m_size v)) first v) = Returned v1"
      "m_size v1 = m_size v" "length (m_storage v1) = C"
      "\<forall>i<C. is_live (m_storage v ! i) \<longrightarrow> is_live (m_storage v1 ! i)"
    by auto
  let ?n = "nat (lst - first)"
  let ?v' = "v1\<lparr>m_size := m_size v1 - ?n\<rparr>"
  have n: "?n \<le> m_size v" using assms(2-4) by simp
  have run: "outcome (erase_const first lst v) = Returned (?v', first)"
    using v1(1,2) assms(3) n
    by (simp add: erase_const_def begin_sv_def end_sv_def Let_def outcome_and_then)
  have sz: "m_size v \<le> C" using assms(1) by (rule wf_size)
  have "wf E C ?v'"
  proof (rule wfI)
    show "length (m_storage ?v') = C" using v1(3) by simp
    show "m_size ?v' \<le> C" using v1(2) sz by simp
    show "is_live (m_storage ?v' ! i)" if "i < m_size ?v'" for i
    proof -
      from that v1(2) have "i < m_size v" by simp
      with wf_slot_live[OF assms(1) this] v1(4) sz show ?thesis by simp
    qed
    show "is_live (m_storage ?v' ! i)" if "constructor_and_destructor_are_cheap E" "i < C" for i
      using wf_cheap_live[OF assms(1) that] v1(4) that(2) by simp
  qed
  then show ?thesis using run v1(2) by simp
qed

subsection \<open>Inserting\<close>

lemma insert_rv_eq: "insert_rv = insert_sv"
  by (intro ext) (simp add: insert_rv_def insert_sv_def)

lemma assign_slot_run:
  assumes "k < length (m_storage v)" and "is_live (m_storage v ! k)"
  shows "outcome (assign_slot (int k) e v) = Returned (v\<lparr>m_storage := (m_storage v)[k := Live e]\<rparr>)"
  using assms by (simp add: assign_slot_def)

lemma assign_slot_raw:
  assumes "\<not> is_live (m_storage v ! k)"
  shows "outcome (assign_slot (int k) e v) = UndefinedBehaviour"
  using assms by (simp add: assign_slot_def)

lemma move_assign_slot_nat:
  assumes "i < length (m_storage v)" and "j < length (m_storage v)"
    and "m_storage v ! j = Live x" and "is_live (m_storage v ! i)"
  shows "outcome (move_assign_slot E (int i) (int j) v) =
           Returned (v\<lparr>m_storage := (m_storage v)[i := Live x, j := Live (moved_from E x)]\<rparr>)"
  using move_assign_slot_run[of "int i" "int j" v x E] assms by simp

lemma move_assign_slot_raw_nat:
  assumes "j < length (m_storage v)" and "m_storage v ! j = Live x"
    and "\<not> is_live (m_storage v ! i)"
  shows "outcome (move_assign_slot E (int i) (int j) v) = UndefinedBehaviour"
  using move_assign_slot_raw[of "int j" v x "int i" E] assms by simp

lemma int_pred: "0 < i \<Longrightarrow> int i - 1 = int (i - 1)"
  by simp

text \<open>The shifting loop of \<open>insert\<close>, when the slot at the old size holds an object.\<close>

lemma insert_shift:
  assumes wf: "wf E C v" and room: "m_size v < C" and idx: "idx \<le> m_size v"
    and live: "is_live (m_storage v ! m_size v)"
  shows "\<exists>s. outcome (for_each (rev [Suc idx..<Suc (m_size v)])
                        (\<lambda>i. move_assign_slot E (int i) (int i - 1)) v) = Returned s \<and>
             m_size s = m_size v \<and> length (m_storage s) = C \<and>
             (\<forall>i<C. m_storage s ! i =
                (if idx < i \<and> i \<le> m_size v then m_storage v ! (i - 1)
                 else if i = idx \<and> idx < m_size v
                      then Live (moved_from E (elements v ! idx))
                      else m_storage v ! i))"
proof -
  let ?m = "m_size v" and ?st = "m_storage v" and ?xs = "elements v"
  let ?P = "\<lambda>k s. m_size s = ?m \<and> length (m_storage s) = C \<and>
             (\<forall>i<C. m_storage s ! i =
                (if k < i \<and> i \<le> ?m then ?st ! (i - 1)
                 else if i = k \<and> k < ?m then Live (moved_from E (?xs ! k))
                      else ?st ! i))"
  let ?body = "\<lambda>i. move_assign_slot E (int i) (int i - 1)"
  have len: "length ?st = C" using wf by (rule wf_length)
  have val: "?st ! i = Live (?xs ! i)" if "i < ?m" for i
    using wf_live_part[OF wf] that len room by (intro live_part_nth) simp_all
  have start: "?P ?m v" using len by auto
  have step: "\<exists>s'. outcome (?body (Suc k) s) = Returned s' \<and> ?P k s'"
    if "idx \<le> k" "k < ?m" "?P (Suc k) s" for k s
  proof -
    have kC: "k < C" "Suc k < C" using that(2) room by simp_all
    have src: "m_storage s ! k = Live (?xs ! k)"
      using that(3) kC(1) val[OF that(2)] by simp
    have dst: "is_live (m_storage s ! Suc k)"
    proof (cases "Suc k < ?m")
      case True
      then show ?thesis using that(3) kC(2) by simp
    next
      case False
      with that(2) have "Suc k = ?m" by simp
      then show ?thesis using that(3) kC(2) live by simp
    qed
    let ?s' = "s\<lparr>m_storage := (m_storage s)[Suc k := Live (?xs ! k),
                                             k := Live (moved_from E (?xs ! k))]\<rparr>"
    have "outcome (move_assign_slot E (int (Suc k)) (int (Suc k - 1)) s) = Returned ?s'"
      using move_assign_slot_nat[of "Suc k" s k "?xs ! k" E] that(3) kC src dst
      by simp
    then have run: "outcome (?body (Suc k) s) = Returned ?s'"
      by (simp only: int_pred[of "Suc k", OF zero_less_Suc])
    have "m_storage ?s' ! i =
            (if k < i \<and> i \<le> ?m then ?st ! (i - 1)
             else if i = k \<and> k < ?m then Live (moved_from E (?xs ! k))
                  else ?st ! i)" if "i < C" for i
    proof -
      consider "i = k" | "i = Suc k" | "i \<noteq> k" "i \<noteq> Suc k" by blast
      then show ?thesis
      proof cases
        case 1
        then show ?thesis using \<open>?P (Suc k) s\<close> kC \<open>k < ?m\<close> by simp
      next
        case 2
        then show ?thesis using \<open>?P (Suc k) s\<close> kC \<open>k < ?m\<close> val[OF \<open>k < ?m\<close>] by simp
      next
        case 3
        then have "m_storage ?s' ! i = m_storage s ! i" by simp
        moreover have "k < i \<longleftrightarrow> Suc k < i" using 3 by auto
        ultimately show ?thesis using \<open>?P (Suc k) s\<close> that 3 by simp
      qed
    qed
    then have "?P k ?s'" using that(3) by simp
    with run show ?thesis by blast
  qed
  have "\<exists>s'. outcome (for_each (rev [Suc idx..<Suc ?m]) ?body v) = Returned s' \<and> ?P idx s'"
    using start idx by (rule for_each_rev_upt_rule[where P = ?P]) (use step in blast)
  then show ?thesis by blast
qed

lemma insert_run:
  assumes wf: "wf E C v" and room: "m_size v < C" and pos: "0 \<le> pos" "pos \<le> int (m_size v)"
    and live: "is_live (m_storage v ! m_size v)"
  shows "\<exists>v'. outcome (insert_sv E C pos val v) = Returned (v', pos) \<and> wf E C v' \<and>
              m_size v' = Suc (m_size v) \<and>
              live_part v' = take (nat pos) (live_part v) @ [Live val] @ drop (nat pos) (live_part v)"
proof -
  let ?m = "m_size v" and ?st = "m_storage v" and ?idx = "nat pos"
  have idx: "?idx \<le> ?m" using pos by simp
  have len: "length ?st = C" using wf by (rule wf_length)
  from insert_shift[OF wf room idx live] obtain s where
    s: "outcome (for_each (rev [Suc ?idx..<Suc ?m])
                   (\<lambda>i. move_assign_slot E (int i) (int i - 1)) v) = Returned s"
      "m_size s = ?m" "length (m_storage s) = C"
      "\<forall>i<C. m_storage s ! i =
          (if ?idx < i \<and> i \<le> ?m then ?st ! (i - 1)
           else if i = ?idx \<and> ?idx < ?m then Live (moved_from E (elements v ! ?idx))
                else ?st ! i)"
    by blast
  have idxC: "?idx < C" using idx room by simp
  have "is_live (m_storage s ! ?idx)"
  proof (cases "?idx < ?m")
    case True
    then show ?thesis using s(4) idxC by simp
  next
    case False
    with idx have "?idx = ?m" by simp
    then show ?thesis using s(4) idxC live by simp
  qed
  then have wr: "outcome (assign_slot (int ?idx) val s) =
                      Returned (s\<lparr>m_storage := (m_storage s)[?idx := Live val]\<rparr>)"
    using idxC s(3) by (intro assign_slot_run) simp_all
  let ?v' = "\<lparr>m_storage = (m_storage s)[?idx := Live val], m_size = Suc ?m\<rparr>"
  have run: "outcome (insert_sv E C pos val v) = Returned (?v', pos)"
    using room pos(1) s(1,2) wr
    by (simp add: insert_sv_def begin_sv_def Let_def outcome_and_then)
  have slots: "m_storage ?v' ! i =
                 (if i = ?idx then Live val
                  else if ?idx < i \<and> i \<le> ?m then ?st ! (i - 1) else ?st ! i)" if "i < C" for i
    using that s(3,4) by (cases "i = ?idx") simp_all
  have "wf E C ?v'"
  proof (rule wfI)
    show "length (m_storage ?v') = C" using s(3) by simp
    show "m_size ?v' \<le> C" using room by simp
    show "is_live (m_storage ?v' ! i)" if "i < m_size ?v'" for i
    proof -
      from that room have iC: "i < C" by simp
      have "is_live (?st ! (i - 1))" if "?idx < i" "i \<le> ?m"
        using that wf_slot_live[OF wf, of "i - 1"] by simp
      moreover have "is_live (?st ! i)" if "i < ?idx"
        using that idx wf_slot_live[OF wf, of i] by simp
      ultimately show ?thesis
        using slots[OF iC] that by (cases "i = ?idx") (auto split: if_splits)
    qed
    show "is_live (m_storage ?v' ! i)" if "constructor_and_destructor_are_cheap E" "i < C" for i
    proof -
      have "is_live (?st ! j)" if "j < C" for j
        using wf_cheap_live[OF wf \<open>constructor_and_destructor_are_cheap E\<close> that] .
      then show ?thesis using slots[OF that(2)] that(2) by simp
    qed
  qed
  moreover have "live_part ?v' =
                   take ?idx (live_part v) @ [Live val] @ drop ?idx (live_part v)"
  proof (rule nth_equalityI)
    show "length (live_part ?v') =
            length (take ?idx (live_part v) @ [Live val] @ drop ?idx (live_part v))"
      using s(3) room idx len by (simp add: live_part_def)
    fix i assume "i < length (live_part ?v')"
    then have i: "i < Suc ?m" using s(3) room by (simp add: live_part_def)
    then have iC: "i < C" using room by simp
    have lhs: "live_part ?v' ! i = m_storage ?v' ! i"
      using i by (simp add: live_part_def)
    have lt: "length (take ?idx (live_part v)) = ?idx"
      using idx len room by (simp add: live_part_def)
    show "live_part ?v' ! i =
            (take ?idx (live_part v) @ [Live val] @ drop ?idx (live_part v)) ! i"
    proof -
      consider "i < ?idx" | "i = ?idx" | "?idx < i" by linarith
      then show ?thesis
      proof cases
        case 1
        then show ?thesis
          unfolding lhs slots[OF iC] using lt idx by (simp add: nth_append live_part_def)
      next
        case 2
        then show ?thesis
          unfolding lhs slots[OF iC] using lt by (simp add: nth_append)
      next
        case 3
        then obtain j where j: "i = Suc (?idx + j)"
          by (metis less_iff_Suc_add add_Suc_right)
        with i have "?idx + j < ?m" by simp
        then show ?thesis
          unfolding lhs slots[OF iC] using lt j i len room
          by (simp add: nth_append live_part_def)
      qed
    qed
  qed
  ultimately show ?thesis using run by simp
qed

lemma insert_raw:
  assumes wf: "wf E C v" and room: "m_size v < C" and pos: "0 \<le> pos" "pos \<le> int (m_size v)"
    and raw: "\<not> is_live (m_storage v ! m_size v)"
  shows "outcome (insert_sv E C pos val v) = UndefinedBehaviour"
proof (cases "nat pos = m_size v")
  case True
  then have "rev [Suc (nat pos)..<Suc (m_size v)] = []" by simp
  moreover have "outcome (assign_slot (int (m_size v)) val v) = UndefinedBehaviour"
    using raw by (rule assign_slot_raw)
  moreover have "int (nat pos) = int (m_size v)" using True by simp
  ultimately show ?thesis
    using room pos(1)
    by (simp add: insert_sv_def begin_sv_def Let_def outcome_and_then del: int_nat_eq)
next
  case False
  with pos have lt: "nat pos < m_size v" by simp
  let ?m = "m_size v"
  have list: "rev [Suc (nat pos)..<Suc ?m] = ?m # rev [Suc (nat pos)..<?m]"
    using lt by simp
  have m1: "?m - 1 < ?m" using lt by simp
  from wf_slot_live[OF wf m1] obtain x where x: "m_storage v ! (?m - 1) = Live x"
    using live_slot_value by blast
  have len: "length (m_storage v) = C" using wf by (rule wf_length)
  have "outcome (move_assign_slot E (int ?m) (int (?m - 1)) v) = UndefinedBehaviour"
    using x raw len room m1 by (intro move_assign_slot_raw_nat[where x = x]) simp_all
  moreover have "0 < ?m" using lt by simp
  ultimately have "outcome (move_assign_slot E (int ?m) (int ?m - 1) v) = UndefinedBehaviour"
    by (simp only: int_pred)
  then have "outcome (for_each (rev [Suc (nat pos)..<Suc ?m])
                        (\<lambda>i. move_assign_slot E (int i) (int i - 1)) v) = UndefinedBehaviour"
    unfolding list by simp
  then show ?thesis
    using room pos(1)
    by (simp add: insert_sv_def begin_sv_def Let_def outcome_and_then)
qed

subsection \<open>Resizing\<close>

lemma assign_loop_live:
  assumes "a \<le> b" and "b \<le> length (m_storage s)"
    and "\<And>i. a \<le> i \<Longrightarrow> i < b \<Longrightarrow> is_live (m_storage s ! i)"
  shows "\<exists>s'. outcome (for_each [a..<b] (\<lambda>i. assign_slot (int i) x) s) = Returned s' \<and>
              m_size s' = m_size s \<and> length (m_storage s') = length (m_storage s) \<and>
              (\<forall>i<length (m_storage s).
                 m_storage s' ! i = (if a \<le> i \<and> i < b then Live x else m_storage s ! i))"
proof -
  let ?P = "\<lambda>k s'. m_size s' = m_size s \<and> length (m_storage s') = length (m_storage s) \<and>
              (\<forall>i<length (m_storage s).
                 m_storage s' ! i = (if a \<le> i \<and> i < k then Live x else m_storage s ! i))"
  have start: "?P a s" by auto
  have step: "\<exists>s''. outcome (assign_slot (int k) x s') = Returned s'' \<and> ?P (Suc k) s''"
    if "a \<le> k" "k < b" "?P k s'" for k s'
  proof -
    have k: "k < length (m_storage s')" using that(2,3) assms(2) by simp
    moreover have "is_live (m_storage s' ! k)"
      using that assms(2) assms(3)[of k] by simp
    ultimately have "outcome (assign_slot (int k) x s') =
                       Returned (s'\<lparr>m_storage := (m_storage s')[k := Live x]\<rparr>)"
      by (rule assign_slot_run)
    moreover have "?P (Suc k) (s'\<lparr>m_storage := (m_storage s')[k := Live x]\<rparr>)"
      using that(1,3) by (auto simp: nth_list_update less_Suc_eq)
    ultimately show ?thesis by blast
  qed
  show ?thesis
    using start assms(1) by (rule for_each_upt_rule[where P = ?P]) (use step in blast)
qed

lemma assign_loop_raw:
  assumes "a \<le> j" and "j < b" and "\<not> is_live (m_storage s ! j)"
  shows "outcome (for_each [a..<b] (\<lambda>i. assign_slot (int i) x) s) = UndefinedBehaviour"
  using assms
proof (induction "j - a" arbitrary: a s)
  case 0
  then have "a = j" by simp
  then have "[a..<b] = j # [Suc j..<b]" using "0.prems"(2) by (simp add: upt_conv_Cons)
  moreover have "outcome (assign_slot (int j) x s) = UndefinedBehaviour"
    using "0.prems"(3) by (rule assign_slot_raw)
  ultimately show ?case by simp
next
  case (Suc n)
  then have lt: "a < j" "a < b" by simp_all
  then have list: "[a..<b] = a # [Suc a..<b]" by (simp add: upt_conv_Cons)
  show ?case
  proof (cases "a < length (m_storage s) \<and> is_live (m_storage s ! a)")
    case True
    let ?s1 = "s\<lparr>m_storage := (m_storage s)[a := Live x]\<rparr>"
    from True have "outcome (assign_slot (int a) x s) = Returned ?s1"
      by (intro assign_slot_run) simp_all
    moreover have "outcome (for_each [Suc a..<b] (\<lambda>i. assign_slot (int i) x) ?s1) =
                     UndefinedBehaviour"
    proof (rule Suc.hyps(1))
      show "n = j - Suc a" using Suc.hyps(2) by simp
      show "Suc a \<le> j" using lt by simp
      show "j < b" by (rule Suc.prems(2))
      show "\<not> is_live (m_storage ?s1 ! j)" using lt Suc.prems(3) by simp
    qed
    ultimately show ?thesis unfolding list by simp
  next
    case False
    then have "outcome (assign_slot (int a) x s) = UndefinedBehaviour"
      by (auto simp: assign_slot_def)
    then show ?thesis unfolding list by simp
  qed
qed

lemma resize_shrink:
  assumes "wf E C v" and "n \<le> m_size v"
  shows "\<exists>v'. outcome (resize E C n v) = Returned v' \<and> wf E C v' \<and> m_size v' = n \<and>
              live_part v' = take n (live_part v) \<and> m_storage v' = m_storage v"
proof -
  have "n \<le> C" using assms wf_size by fastforce
  then have "outcome (resize E C n v) = Returned (v\<lparr>m_size := n\<rparr>)"
    using assms(2) by (simp add: resize_def)
  moreover have "wf E C (v\<lparr>m_size := n\<rparr>)"
    using assms wf_slot_live[OF assms(1)] \<open>n \<le> C\<close> wf_cheap_live[OF assms(1)]
    by (intro wfI) (simp_all add: wf_length)
  moreover have "live_part (v\<lparr>m_size := n\<rparr>) = take n (live_part v)"
    using assms(2) by (simp add: live_part_def min_def)
  ultimately show ?thesis by simp
qed

lemma resize_grow:
  assumes "wf E C v" and "m_size v < n" and "n \<le> C"
    and "\<And>i. m_size v \<le> i \<Longrightarrow> i < n \<Longrightarrow> is_live (m_storage v ! i)"
  shows "\<exists>v'. outcome (resize E C n v) = Returned v' \<and> wf E C v' \<and> m_size v' = n \<and>
              live_part v' = live_part v @ replicate (n - m_size v) (Live (value_initialized E))"
proof -
  let ?m = "m_size v" and ?x = "value_initialized E"
  let ?v1 = "v\<lparr>m_size := n\<rparr>"
  have len: "length (m_storage v) = C" using assms(1) by (rule wf_length)
  have "\<exists>s'. outcome (for_each [?m..<n] (\<lambda>i. assign_slot (int i) ?x) ?v1) = Returned s' \<and>
          m_size s' = m_size ?v1 \<and> length (m_storage s') = length (m_storage ?v1) \<and>
          (\<forall>i<length (m_storage ?v1).
             m_storage s' ! i = (if ?m \<le> i \<and> i < n then Live ?x else m_storage ?v1 ! i))"
    using assms(2-4) len by (intro assign_loop_live) simp_all
  then obtain s' where s': "outcome (for_each [?m..<n] (\<lambda>i. assign_slot (int i) ?x) ?v1) = Returned s'"
    "m_size s' = n" "length (m_storage s') = C"
    "\<forall>i<C. m_storage s' ! i = (if ?m \<le> i \<and> i < n then Live ?x else m_storage v ! i)"
    using len by auto
  have run: "outcome (resize E C n v) = Returned s'"
    using assms(2,3) s'(1) by (simp add: resize_def Let_def)
  have "wf E C s'"
  proof (rule wfI)
    show "length (m_storage s') = C" by (rule s'(3))
    show "m_size s' \<le> C" using s'(2) assms(3) by simp
    show "is_live (m_storage s' ! i)" if "i < m_size s'" for i
      using that s'(2,4) assms(3) wf_slot_live[OF assms(1), of i] by (cases "?m \<le> i") simp_all
    show "is_live (m_storage s' ! i)" if "constructor_and_destructor_are_cheap E" "i < C" for i
      using that s'(4) wf_cheap_live[OF assms(1) that] by simp
  qed
  moreover have "live_part s' = live_part v @ replicate (n - ?m) (Live ?x)"
  proof (rule nth_equalityI)
    show "length (live_part s') = length (live_part v @ replicate (n - ?m) (Live ?x))"
      using s'(2,3) assms(2,3) len by (simp add: live_part_def)
    fix i assume "i < length (live_part s')"
    then have i: "i < n" using s'(2,3) assms(3) by (simp add: live_part_def)
    then show "live_part s' ! i = (live_part v @ replicate (n - ?m) (Live ?x)) ! i"
      using s'(2,4) assms(2,3) len by (simp add: live_part_def nth_append)
  qed
  ultimately show ?thesis using run s'(2) by blast
qed

lemma resize_raw:
  assumes "m_size v \<le> j" and "j < n" and "n \<le> C" and "\<not> is_live (m_storage v ! j)"
  shows "outcome (resize E C n v) = UndefinedBehaviour"
proof -
  have "outcome (for_each [m_size v..<n] (\<lambda>i. assign_slot (int i) (value_initialized E))
                   (v\<lparr>m_size := n\<rparr>)) = UndefinedBehaviour"
    using assms(1,2,4) by (intro assign_loop_raw[where j = j]) simp_all
  then show ?thesis
    using assms(1-3) by (simp add: resize_def Let_def)
qed

subsection \<open>Assignment and construction from another vector\<close>

lemma not_all_live:
  "j < length st \<Longrightarrow> \<not> is_live (st ! j) \<Longrightarrow> \<not> list_all is_live st"
  by (auto simp: list_all_length)

lemma convert_elements_wf:
  assumes "wf E' C' other" and "wf E C v" and "m_size v = 0" and "m_size other \<le> C"
  shows "\<exists>v'. outcome (convert_elements C conv other v) = Returned v' \<and> wf E C v' \<and>
              m_size v' = m_size other \<and> live_part v' = map Live (map conv (elements other))"
proof -
  have src: "m_size other \<le> length (m_storage other)" "live_part other = map Live (elements other)"
    using assms(1) wf_live_part by (simp_all add: wf_def)
  have len: "length (elements other) = m_size other" using assms(1) by (rule wf_length_elements)
  have "m_size v + length (map conv (elements other)) \<le> C" using assms(3,4) len by simp
  from for_each_push_back_wf[OF assms(2) this] obtain v' where
    "outcome (for_each (map conv (elements other)) (push_back C) v) = Returned v'" "wf E C v'"
    "m_size v' = m_size v + length (map conv (elements other))"
    "live_part v' = live_part v @ map Live (map conv (elements other))" by blast
  then show ?thesis
    using convert_elements_conv[OF src, of C conv v] assms(3) len by (simp add: live_part_def)
qed

lemma assign_wf:
  assumes "wf E C v" and "n \<le> C"
  shows "\<exists>v'. outcome (assign E C n val v) = Returned v' \<and> wf E C v' \<and> m_size v' = n \<and>
              live_part v' = replicate n (Live val)"
proof -
  from clear_run[OF assms(1)] obtain v0 where
    v0: "outcome (clear E v) = Returned v0" "m_size v0 = 0" "wf E C v0" by blast
  have "m_size v0 + length (replicate n val) \<le> C" using v0(2) assms(2) by simp
  from for_each_push_back_wf[OF v0(3) this] obtain v' where
    "outcome (for_each (replicate n val) (push_back C) v0) = Returned v'" "wf E C v'"
    "m_size v' = m_size v0 + length (replicate n val)"
    "live_part v' = live_part v0 @ map Live (replicate n val)" by blast
  then show ?thesis
    using v0(1,2) assms(2)
    by (simp add: assign_def for_each_const_push_back live_part_def)
qed

lemma sized_wf:
  assumes "n \<le> C"
  shows "\<exists>v'. outcome (StaticVector_sized E C n init) = Returned v' \<and> wf E C v' \<and>
              m_size v' = n \<and> live_part v' = replicate n (Live init)"
proof -
  have "m_size (StaticVector_default E C) + length (replicate n init) \<le> C" using assms by simp
  from for_each_push_back_wf[OF wf_default this] obtain v' where
    "outcome (for_each (replicate n init) (push_back C) (StaticVector_default E C)) = Returned v'"
    "wf E C v'" "m_size v' = m_size (StaticVector_default E C) + length (replicate n init)"
    "live_part v' = live_part (StaticVector_default E C) @ map Live (replicate n init)" by blast
  then show ?thesis
    by (simp add: StaticVector_sized_def for_each_const_push_back live_part_def)
qed

lemma init_list_wf:
  assumes "length values \<le> C"
  shows "\<exists>v'. outcome (StaticVector_init_list E C values) = Returned v' \<and> wf E C v' \<and>
              m_size v' = length values \<and> live_part v' = map Live values"
proof -
  have "m_size (StaticVector_default E C) + length values \<le> C" using assms by simp
  from for_each_push_back_wf[OF wf_default this] obtain v' where
    "outcome (for_each values (push_back C) (StaticVector_default E C)) = Returned v'"
    "wf E C v'" "m_size v' = m_size (StaticVector_default E C) + length values"
    "live_part v' = live_part (StaticVector_default E C) @ map Live values" by blast
  then show ?thesis
    by (simp add: StaticVector_init_list_def live_part_def)
qed

lemma size_guard:
  "m_size other \<le> C \<Longrightarrow>
   outcome (if OC > C then assert (size_sv other \<le> C) SizeFitsCapacity else ret ()) = Returned ()"
  by (simp add: size_sv_def)

lemma copy_assign_other_wf:
  assumes "wf E C v" and "wf E' OC other" and "m_size other \<le> C"
  shows "\<exists>v'. outcome (copy_assign_other E C OC conv other v) = Returned v' \<and> wf E C v' \<and>
              live_part v' = map Live (map conv (elements other))"
proof -
  from clear_run[OF assms(1)] obtain v0 where
    v0: "outcome (clear E v) = Returned v0" "m_size v0 = 0" "wf E C v0" by blast
  from convert_elements_wf[OF assms(2) v0(3) v0(2) assms(3), of conv] obtain v' where
    "outcome (convert_elements C conv other v0) = Returned v'" "wf E C v'"
    "live_part v' = map Live (map conv (elements other))" by blast
  then show ?thesis
    using v0(1) size_guard[OF assms(3), of OC]
    by (simp add: copy_assign_other_def)
qed

lemma move_assign_other_wf:
  assumes "wf E C v" and "wf E' OC other" and "m_size other \<le> C"
  shows "\<exists>v' s'. outcome (move_assign_other E E' C OC conv other v) = Returned (v', s') \<and>
              wf E C v' \<and> wf E' OC s' \<and> m_size s' = m_size other \<and>
              live_part v' = map Live (map conv (elements other))"
proof -
  from clear_run[OF assms(1)] obtain v0 where
    v0: "outcome (clear E v) = Returned v0" "m_size v0 = 0" "wf E C v0" by blast
  from move_elements_wf[OF assms(2) v0(3) v0(2) assms(3), of conv] obtain d s' where
    "outcome (move_elements E' C conv (v0, other)) = Returned (d, s')" "wf E C d" "wf E' OC s'"
    "m_size s' = m_size other" "live_part d = map Live (map conv (elements other))" by blast
  then show ?thesis
    using v0(1) size_guard[OF assms(3), of OC]
    by (simp add: move_assign_other_def)
qed

lemma copy_other_wf:
  assumes "wf E' OC other" and "m_size other \<le> C"
  shows "\<exists>v'. outcome (StaticVector_copy_other E C OC conv other) = Returned v' \<and> wf E C v' \<and>
              live_part v' = map Live (map conv (elements other))"
proof -
  from convert_elements_wf[OF assms(1) wf_default _ assms(2), of E conv] obtain v' where
    "outcome (convert_elements C conv other (StaticVector_default E C)) = Returned v'" "wf E C v'"
    "live_part v' = map Live (map conv (elements other))" by auto
  then show ?thesis
    using size_guard[OF assms(2), of OC] by (simp add: StaticVector_copy_other_def)
qed

lemma move_other_wf:
  assumes "wf E' OC other" and "m_size other \<le> C"
  shows "\<exists>v' s'. outcome (StaticVector_move_other E E' C OC conv other) = Returned (v', s') \<and>
              wf E C v' \<and> wf E' OC s' \<and> m_size s' = m_size other \<and>
              live_part v' = map Live (map conv (elements other))"
proof -
  from move_elements_wf[OF assms(1) wf_default _ assms(2), of E conv] obtain d s' where
    "outcome (move_elements E' C conv (StaticVector_default E C, other)) = Returned (d, s')"
    "wf E C d" "wf E' OC s'" "m_size s' = m_size other"
    "live_part d = map Live (map conv (elements other))" by auto
  then show ?thesis
    using size_guard[OF assms(2), of OC] by (simp add: StaticVector_move_other_def)
qed

lemma copy_wf:
  assumes "wf E C other"
  shows "\<exists>v'. outcome (StaticVector_copy E C other) = Returned v' \<and> wf E C v' \<and>
              live_part v' = live_part other"
proof -
  have "m_size other \<le> C" using assms by (rule wf_size)
  from convert_elements_wf[OF assms wf_default _ this, of E "\<lambda>e. e"] obtain v' where
    "outcome (convert_elements C (\<lambda>e. e) other (StaticVector_default E C)) = Returned v'" "wf E C v'"
    "live_part v' = map Live (map (\<lambda>e. e) (elements other))" by auto
  then show ?thesis
    using wf_live_part[OF assms] by (simp add: StaticVector_copy_def copy_elements_eq)
qed

lemma move_wf:
  assumes "wf E C other"
  shows "\<exists>v' s'. outcome (StaticVector_move E C other) = Returned (v', s') \<and> wf E C v' \<and>
              wf E C s' \<and> m_size s' = m_size other \<and> live_part v' = live_part other"
proof -
  have "m_size other \<le> C" using assms by (rule wf_size)
  from move_elements_wf[OF assms wf_default _ this, of E "\<lambda>e. e"] obtain d s' where
    "outcome (move_elements E C (\<lambda>e. e) (StaticVector_default E C, other)) = Returned (d, s')"
    "wf E C d" "wf E C s'" "m_size s' = m_size other"
    "live_part d = map Live (map (\<lambda>e. e) (elements other))" by auto
  then show ?thesis
    using wf_live_part[OF assms] by (simp add: StaticVector_move_def)
qed

lemma copy_assign_wf:
  assumes "wf E C (st this)" and "wf E C (st other)"
  shows "\<exists>st'. outcome (copy_assign E C this other st) = Returned st' \<and> wf E C (st' this) \<and>
               live_part (st' this) = live_part (st other) \<and> st' other = st other"
proof (cases "this = other")
  case True
  then show ?thesis using assms by (simp add: copy_assign_def)
next
  case False
  from clear_run[OF assms(1)] obtain v0 where
    v0: "outcome (clear E (st this)) = Returned v0" "m_size v0 = 0" "wf E C v0" by blast
  have "m_size (st other) \<le> C" using assms(2) by (rule wf_size)
  from convert_elements_wf[OF assms(2) v0(3) v0(2) this, of "\<lambda>e. e"] obtain v' where
    "outcome (convert_elements C (\<lambda>e. e) (st other) v0) = Returned v'" "wf E C v'"
    "live_part v' = map Live (map (\<lambda>e. e) (elements (st other)))" by blast
  then show ?thesis
    using False v0(1) wf_live_part[OF assms(2)] by (simp add: copy_assign_def copy_elements_eq)
qed

lemma move_assign_wf:
  assumes "wf E C (st this)" and "wf E C (st other)"
  shows "\<exists>st'. outcome (move_assign E C this other st) = Returned st' \<and> wf E C (st' this) \<and>
               wf E C (st' other)"
proof (cases "this = other")
  case True
  then show ?thesis using assms by (simp add: move_assign_def)
next
  case False
  from clear_run[OF assms(1)] obtain v0 where
    v0: "outcome (clear E (st this)) = Returned v0" "m_size v0 = 0" "wf E C v0" by blast
  have "m_size (st other) \<le> C" using assms(2) by (rule wf_size)
  from move_elements_wf[OF assms(2) v0(3) v0(2) this, of "\<lambda>e. e"] obtain d s' where
    "outcome (move_elements E C (\<lambda>e. e) (v0, st other)) = Returned (d, s')"
    "wf E C d" "wf E C s'" by blast
  then show ?thesis
    using False v0(1) by (simp add: move_assign_def)
qed

subsection \<open>Every operation\<close>

lemma perform_resize:
  assumes "wf E C v" and "n \<le> C"
  shows "(\<exists>v'. outcome (resize E C n v) = Returned v' \<and> wf E C v') \<or>
         (outcome (resize E C n v) = UndefinedBehaviour \<and> \<not> list_all is_live (m_storage v))"
proof (cases "n \<le> m_size v")
  case True
  from resize_shrink[OF assms(1) this] show ?thesis by blast
next
  case False
  then have grow: "m_size v < n" by simp
  show ?thesis
  proof (cases "\<forall>i. m_size v \<le> i \<and> i < n \<longrightarrow> is_live (m_storage v ! i)")
    case True
    then have "\<And>i. m_size v \<le> i \<Longrightarrow> i < n \<Longrightarrow> is_live (m_storage v ! i)" by blast
    from resize_grow[OF assms(1) grow assms(2) this] show ?thesis by blast
  next
    case False
    then obtain j where j: "m_size v \<le> j" "j < n" "\<not> is_live (m_storage v ! j)" by blast
    have "outcome (resize E C n v) = UndefinedBehaviour"
      using j(1,2) assms(2) j(3) by (rule resize_raw)
    moreover have "j < length (m_storage v)" using j(2) assms by (simp add: wf_def)
    then have "\<not> list_all is_live (m_storage v)" using j(3) by (rule not_all_live)
    ultimately show ?thesis by blast
  qed
qed

lemma perform_insert:
  assumes "wf E C v" and "m_size v < C" and "0 \<le> pos" and "pos \<le> int (m_size v)"
  shows "(\<exists>v'. outcome (insert_sv E C pos val v) = Returned (v', pos) \<and> wf E C v') \<or>
         (outcome (insert_sv E C pos val v) = UndefinedBehaviour \<and>
          \<not> list_all is_live (m_storage v))"
proof (cases "is_live (m_storage v ! m_size v)")
  case True
  from insert_run[OF assms True] show ?thesis by blast
next
  case False
  have "outcome (insert_sv E C pos val v) = UndefinedBehaviour"
    using assms False by (rule insert_raw)
  moreover have "m_size v < length (m_storage v)" using assms(1,2) by (simp add: wf_def)
  then have "\<not> list_all is_live (m_storage v)" using False by (rule not_all_live)
  ultimately show ?thesis by blast
qed

lemma perform_wf:
  assumes "wf E C v" and "spec_precondition E C v op"
  shows "(\<exists>v'. outcome (perform E C op v) = Returned v' \<and> wf E C v') \<or>
         (outcome (perform E C op v) = UndefinedBehaviour \<and> grows_by_assignment op \<and>
          \<not> list_all is_live (m_storage v))"
proof (cases op)
  case (Push_back e)
  with assms push_back_wf[of E C v e] show ?thesis by auto
next
  case (Push_back_rv e)
  with assms push_back_wf[of E C v e] show ?thesis by (auto simp: push_back_rv_eq)
next
  case (Emplace_back e)
  with assms push_back_wf[of E C v e] show ?thesis by (auto simp: emplace_back_eq)
next
  case Pop_back
  with assms pop_back_wf[of E C v] show ?thesis by auto
next
  case Clear
  with clear_run[OF assms(1)] show ?thesis by auto
next
  case (Assign n val)
  with assms assign_wf[of E C v n val] show ?thesis by auto
next
  case (Resize n)
  with assms perform_resize[of E C v n] show ?thesis by auto
next
  case (Reserve n)
  with assms show ?thesis by (simp add: reserve_def)
next
  case Shrink_to_fit
  with assms show ?thesis by (simp add: shrink_to_fit_def)
next
  case (Insert pos val)
  with assms perform_insert[of E C v pos val] show ?thesis
    by (auto simp: begin_sv_def end_sv_def)
next
  case (Insert_rv pos val)
  with assms perform_insert[of E C v pos val] show ?thesis
    by (auto simp: begin_sv_def end_sv_def insert_rv_eq)
next
  case (Erase first lst)
  with assms erase_wf[of E C v first lst] show ?thesis
    by (auto simp: begin_sv_def end_sv_def)
next
  case (Erase_const first lst)
  with assms erase_const_wf[of E C v first lst] show ?thesis
    by (auto simp: begin_sv_def end_sv_def)
next
  case (Erase_at pos)
  with assms erase_wf[of E C v pos "pos + 1"] show ?thesis
    by (auto simp: begin_sv_def end_sv_def erase_at_def)
next
  case (Erase_const_at pos)
  with assms erase_const_wf[of E C v pos "pos + 1"] show ?thesis
    by (auto simp: begin_sv_def end_sv_def erase_const_at_def)
next
  case (Copy_assign other)
  with assms copy_assign_wf[of E C "\<lambda>a. if a = 0 then v else other" 0 1] show ?thesis
    by auto
next
  case (Move_assign other)
  with assms move_assign_wf[of E C "\<lambda>a. if a = 0 then v else other" 0 1] show ?thesis
    by auto
next
  case Self_copy_assign
  with assms show ?thesis by (simp add: copy_assign_def)
next
  case Self_move_assign
  with assms show ?thesis by (simp add: move_assign_def)
next
  case (Copy_assign_other OC other)
  with assms copy_assign_other_wf[of E C v E OC other "\<lambda>e. e"] show ?thesis by auto
next
  case (Move_assign_other OC other)
  with assms move_assign_other_wf[of E C v E OC other "\<lambda>e. e"] show ?thesis by auto
qed

lemma construct_wf:
  assumes "spec_construct_precondition E C c"
  shows "\<exists>v'. outcome (construct E C c) = Returned v' \<and> wf E C v'"
proof (cases c)
  case Default
  then show ?thesis by (simp add: wf_default)
next
  case (Sized n init)
  with assms sized_wf[of n C E init] show ?thesis by auto
next
  case (Init_list vals)
  with assms init_list_wf[of vals C E] show ?thesis by auto
next
  case (Copy other)
  with assms copy_wf[of E C other] show ?thesis by auto
next
  case (Move other)
  with assms move_wf[of E C other] show ?thesis by auto
next
  case (Copy_other OC other)
  with assms copy_other_wf[of E OC other C E "\<lambda>e. e"] show ?thesis by auto
next
  case (Move_other OC other)
  with assms move_other_wf[of E OC other C E "\<lambda>e. e"] show ?thesis by auto
qed

subsection \<open>The elements after erasing\<close>

text \<open>Moving the tail \<open>[F, m)\<close> down to \<open>D < F\<close>: where every value ends up.\<close>

lemma std_move_values:
  assumes wf: "wf E C v" and DF: "D < F" and Fm: "F \<le> m_size v"
  shows "\<exists>v'. outcome (std_move E (int F) (int (m_size v)) (int D) v) = Returned v' \<and>
              m_size v' = m_size v \<and> length (m_storage v') = C \<and>
              (\<forall>i<C. m_storage v' ! i =
                 (if D \<le> i \<and> i < D + (m_size v - F) then m_storage v ! (i + (F - D))
                  else if F \<le> i \<and> i < m_size v then Live (moved_from E (elements v ! i))
                       else m_storage v ! i))"
proof -
  let ?m = "m_size v" and ?st = "m_storage v" and ?xs = "elements v"
  let ?P = "\<lambda>k s. m_size s = ?m \<and> length (m_storage s) = C \<and>
             (\<forall>i<C. m_storage s ! i =
                (if D \<le> i \<and> i < D + k then ?st ! (i + (F - D))
                 else if F \<le> i \<and> i < F + k then Live (moved_from E (?xs ! i))
                      else ?st ! i))"
  let ?body = "\<lambda>k. move_assign_slot E (int D + int k) (int F + int k)"
  have len: "length ?st = C" and mC: "?m \<le> C" using wf by (simp_all add: wf_def)
  have val: "?st ! i = Live (?xs ! i)" if "i < ?m" for i
    using wf_live_part[OF wf] that len mC by (intro live_part_nth) simp_all
  have start: "?P 0 v" using len by auto
  have step: "\<exists>s'. outcome (?body k s) = Returned s' \<and> ?P (Suc k) s'"
    if "k < ?m - F" "?P k s" for k s
  proof -
    let ?p = "D + k" and ?q = "F + k"
    have q: "?q < ?m" "?q < C" and p: "?p < ?m" "?p < C" "?p < ?q"
      using that(1) DF mC by simp_all
    have src: "m_storage s ! ?q = Live (?xs ! ?q)"
      using that(2) q DF val[OF q(1)] by simp
    have dst: "is_live (m_storage s ! ?p)"
    proof -
      have "?p + (F - D) < ?m" using p q DF by simp
      then have "is_live (?st ! (?p + (F - D)))" using val by simp
      moreover have "is_live (?st ! ?p)" using val[OF p(1)] by simp
      ultimately show ?thesis using that(2) p(2) by simp
    qed
    let ?s' = "s\<lparr>m_storage := (m_storage s)[?p := Live (?xs ! ?q),
                                             ?q := Live (moved_from E (?xs ! ?q))]\<rparr>"
    have "outcome (move_assign_slot E (int ?p) (int ?q) s) = Returned ?s'"
      using that(2) p q src dst by (intro move_assign_slot_nat) simp_all
    then have run: "outcome (?body k s) = Returned ?s'" by (simp add: algebra_simps)
    have "m_storage ?s' ! i =
            (if D \<le> i \<and> i < D + Suc k then ?st ! (i + (F - D))
             else if F \<le> i \<and> i < F + Suc k then Live (moved_from E (?xs ! i))
                  else ?st ! i)" if "i < C" for i
    proof -
      consider "i = ?q" | "i = ?p" | "i \<noteq> ?p" "i \<noteq> ?q" by blast
      then show ?thesis
      proof cases
        case 1
        then show ?thesis using \<open>?P k s\<close> q DF by simp
      next
        case 2
        then have "i \<noteq> ?q" using p(3) by simp
        moreover have "?p + (F - D) = ?q" using DF by simp
        moreover have "?st ! (k + F) = Live (?xs ! (F + k))"
          using val[OF q(1)] by (simp add: add.commute)
        ultimately show ?thesis using 2 \<open>?P k s\<close> p q by simp
      next
        case 3
        then have "m_storage ?s' ! i = m_storage s ! i" by simp
        moreover have "i < D + Suc k \<longleftrightarrow> i < D + k" "i < F + Suc k \<longleftrightarrow> i < F + k"
          using 3 by auto
        ultimately show ?thesis using \<open>?P k s\<close> that by simp
      qed
    qed
    then have "?P (Suc k) ?s'" using that(2) by simp
    with run show ?thesis by blast
  qed
  have "\<exists>s'. outcome (for_each [0..<?m - F] ?body v) = Returned s' \<and> ?P (?m - F) s'"
    using start by (rule for_each_upt_rule[where P = ?P]) (use step in simp_all)
  then obtain s' where s': "outcome (for_each [0..<?m - F] ?body v) = Returned s'"
    "?P (?m - F) s'" by blast
  have "nat (int ?m - int F) = ?m - F" by simp
  then have run: "outcome (std_move E (int F) (int ?m) (int D) v) = Returned s'"
    using Fm s'(1) by (simp add: std_move_def)
  have "F + (?m - F) = ?m" using Fm by simp
  then have "\<forall>i<C. m_storage s' ! i =
                 (if D \<le> i \<and> i < D + (?m - F) then ?st ! (i + (F - D))
                  else if F \<le> i \<and> i < ?m then Live (moved_from E (?xs ! i))
                       else ?st ! i)"
    using s'(2) by simp
  with run s'(2) show ?thesis by blast
qed

lemma removed_range_list:
  assumes "D < F" and "F \<le> m" and "m \<le> length st" and "length st' = length st"
    and "\<forall>i<length st. st' ! i =
           (if D \<le> i \<and> i < D + (m - F) then st ! (i + (F - D))
            else if F \<le> i \<and> i < m then g i else st ! i)"
  shows "take (m - (F - D)) st' = take D (take m st) @ drop F (take m st)"
proof (rule nth_equalityI)
  show "length (take (m - (F - D)) st') = length (take D (take m st) @ drop F (take m st))"
    using assms(1-4) by simp
  fix i assume "i < length (take (m - (F - D)) st')"
  then have i: "i < m - (F - D)" by simp
  then have il: "i < length st" using assms(3) by simp
  have lt: "length (take D (take m st)) = D" using assms(1-3) by simp
  show "take (m - (F - D)) st' ! i = (take D (take m st) @ drop F (take m st)) ! i"
  proof (cases "i < D")
    case True
    have "st' ! i = (if D \<le> i \<and> i < D + (m - F) then st ! (i + (F - D))
                     else if F \<le> i \<and> i < m then g i else st ! i)"
      using assms(5) il by blast
    moreover have "\<not> D \<le> i" "\<not> F \<le> i" using True assms(1) by simp_all
    ultimately have "st' ! i = st ! i" by (simp only: simp_thms if_False)
    moreover have "i < m" using i by simp
    ultimately show ?thesis
      using True i lt by (simp add: nth_append)
  next
    case False
    then have in_range: "D \<le> i" "i < D + (m - F)" using i assms(1,2) by simp_all
    have eq: "F + (i - D) = i + (F - D)" using False assms(1) by simp
    have lt_m: "F + (i - D) < m" using i False assms(1,2) by simp
    have a: "take (m - (F - D)) st' ! i = st' ! i" using i by simp
    have "st' ! i = (if D \<le> i \<and> i < D + (m - F) then st ! (i + (F - D))
                     else if F \<le> i \<and> i < m then g i else st ! i)"
      using assms(5) il by blast
    then have b: "st' ! i = st ! (i + (F - D))"
      using in_range by (simp only: simp_thms if_True)
    have c: "(take D (take m st) @ drop F (take m st)) ! i = drop F (take m st) ! (i - D)"
      using False lt by (simp add: nth_append)
    have d: "drop F (take m st) ! (i - D) = st ! (F + (i - D))"
      using lt_m assms(2,3) by simp
    show ?thesis by (simp only: a b c d eq)
  qed
qed

text \<open>
  What \<open>erase\<close> of a non-empty range does to a well-formed vector: the elements are the
  original ones without the range, the size drops by the length of the range, and the slots
  that fall out of use stay live.
\<close>

lemma erase_run:
  assumes wf: "wf E C v" and range: "0 \<le> first" "first < lst" "lst \<le> int (m_size v)"
  shows "\<exists>v'. outcome (erase E first lst v) = Returned (v', first) \<and> wf E C v' \<and>
              m_size v' = m_size v - nat (lst - first) \<and>
              live_part v' = take (nat first) (live_part v) @ drop (nat lst) (live_part v) \<and>
              (\<forall>i. m_size v' \<le> i \<and> i < m_size v \<longrightarrow> is_live (m_storage v' ! i))"
proof -
  let ?D = "nat first" and ?F = "nat lst" and ?m = "m_size v" and ?st = "m_storage v"
  have DF: "?D < ?F" and Fm: "?F \<le> ?m" using range by simp_all
  have len: "length ?st = C" and mC: "?m \<le> C" using wf by (simp_all add: wf_def)
  from std_move_values[OF wf DF Fm] range obtain v1 where
    v1: "outcome (std_move E lst (int ?m) first v) = Returned v1"
      "m_size v1 = ?m" "length (m_storage v1) = C"
      "\<forall>i<C. m_storage v1 ! i =
         (if ?D \<le> i \<and> i < ?D + (?m - ?F) then ?st ! (i + (?F - ?D))
          else if ?F \<le> i \<and> i < ?m then Live (moved_from E (elements v ! i))
               else ?st ! i)"
    by auto
  let ?n = "nat (lst - first)"
  have n: "?n = ?F - ?D" "?n \<le> ?m" using range by simp_all
  let ?v' = "v1\<lparr>m_size := ?m - ?n\<rparr>"
  have run: "outcome (erase E first lst v) = Returned (?v', first)"
    using v1(1,2) range n by (simp add: erase_def end_sv_def Let_def outcome_and_then)
  have live1: "is_live (m_storage v1 ! i)" if "i < ?m" for i
  proof -
    have "is_live (?st ! j)" if "j < ?m" for j using wf_slot_live[OF wf that] .
    moreover have "i < C" using that mC by simp
    moreover have "i + (?F - ?D) < ?m" if "i < ?D + (?m - ?F)" using that DF Fm by arith
    ultimately show ?thesis using v1(4) that by simp
  qed
  have "first \<le> lst" using range(2) by simp
  from erase_wf[OF wf range(1) this range(3)] run
  have wf': "wf E C ?v'" by simp
  have "take (?m - (?F - ?D)) (m_storage v1) = take ?D (take ?m ?st) @ drop ?F (take ?m ?st)"
    using DF Fm
  proof (rule removed_range_list)
    show "?m \<le> length ?st" using len mC by simp
    show "length (m_storage v1) = length ?st" using v1(3) len by simp
    show "\<forall>i<length ?st. m_storage v1 ! i =
           (if ?D \<le> i \<and> i < ?D + (?m - ?F) then ?st ! (i + (?F - ?D))
            else if ?F \<le> i \<and> i < ?m then Live (moved_from E (elements v ! i)) else ?st ! i)"
      using v1(4) len by simp
  qed
  then have "live_part ?v' = take ?D (live_part v) @ drop ?F (live_part v)"
    unfolding live_part_def n(1) by simp
  moreover have "\<forall>i. m_size ?v' \<le> i \<and> i < ?m \<longrightarrow> is_live (m_storage ?v' ! i)"
    using live1 by simp
  ultimately show ?thesis using run wf' v1(2) by simp
qed

subsection \<open>What the assertions of erase, insert and the cross-capacity operations check\<close>

lemma and_then_undefined [simp]: "and_then undefined_behaviour f = undefined_behaviour"
  by (simp add: and_then_def undefined_behaviour_def)

lemma for_each_no_checks:
  assumes "\<And>i s. checks (body i s) = []"
  shows "checks (for_each ks body s) = []"
proof -
  have "set (checks (for_each ks body s)) \<subseteq> {}"
    by (rule checks_for_each_subset) (simp add: assms)
  then show ?thesis by simp
qed

lemma checks_std_move [simp]: "checks (std_move E f l d v) = []"
  by (simp add: std_move_def for_each_no_checks)

lemma checks_std_move_const [simp]: "checks (std_move_const f l d v) = []"
  by (simp add: std_move_const_def for_each_no_checks)

lemma read_slot_never_fails [simp]: "outcome (read_slot v p) \<noteq> AssertionFailed a"
  by (simp add: read_slot_def split: slot.splits)












text \<open>When the cross-capacity operations evaluate the check of the source's size.\<close>

lemma size_check_evaluated:
  "SizeFitsCapacity \<in> set (checks (StaticVector_copy_other E C OC conv other)) \<longleftrightarrow> OC > C"
  "SizeFitsCapacity \<in> set (checks (StaticVector_move_other E E' C OC conv other)) \<longleftrightarrow> OC > C"
  "SizeFitsCapacity \<in> set (checks (copy_assign_other E C OC conv other v)) \<longleftrightarrow> OC > C"
  "SizeFitsCapacity \<in> set (checks (move_assign_other E E' C OC conv other v)) \<longleftrightarrow> OC > C"
proof -
  have a: "SizeFitsCapacity \<notin> set (checks (convert_elements C conv other (StaticVector_default E C)))"
    by (rule not_in_checks_convert_elements)
  have b: "SizeFitsCapacity \<notin> set (checks (move_elements E' C conv (StaticVector_default E C, other)))"
    by (rule not_in_checks_move_elements)
  have c: "SizeFitsCapacity \<notin> set (checks (and_then (clear E v) (convert_elements C conv other)))"
    by (rule not_in_checks_clear_copy)
  have d: "SizeFitsCapacity \<notin>
             set (checks (and_then (clear E v) (\<lambda>v'. move_elements E' C conv (v', other))))"
    by (rule not_in_checks_clear_move)
  show "SizeFitsCapacity \<in> set (checks (StaticVector_copy_other E C OC conv other)) \<longleftrightarrow> OC > C"
    using a by (cases "OC > C") (simp_all add: StaticVector_copy_other_def checks_and_then)
  show "SizeFitsCapacity \<in> set (checks (StaticVector_move_other E E' C OC conv other)) \<longleftrightarrow> OC > C"
    using b by (cases "OC > C") (simp_all add: StaticVector_move_other_def checks_and_then)
  show "SizeFitsCapacity \<in> set (checks (copy_assign_other E C OC conv other v)) \<longleftrightarrow> OC > C"
    using c by (cases "OC > C") (simp_all add: copy_assign_other_def checks_and_then)
  show "SizeFitsCapacity \<in> set (checks (move_assign_other E E' C OC conv other v)) \<longleftrightarrow> OC > C"
    using d by (cases "OC > C") (simp_all add: move_assign_other_def checks_and_then)
qed


section \<open>The properties of the specification\<close>

subsection \<open>C1: the length check of cross-capacity copies and moves\<close>

text \<open>
  C1, as claimed: every cross-capacity copy or move checks at run time that the source's size
  is at most the destination's capacity, whatever the two capacity constants are. The source
  guards the assertion by \<^verbatim>\<open>if constexpr (OTHER_CAPACITY > CAPACITY)\<close>. Copying a
  \<open>StaticVector<std::string, 2>\<close> holding two strings into a \<open>StaticVector<std::string, 4>\<close>, by
  construction or by assignment, evaluates the capacity assertion of each \<open>push_back\<close> and no
  check of the source's size.
\<close>

theorem cross_capacity_check_counterexample:
  "checks (StaticVector_copy_other string_element 4 2 id
             \<lparr>m_storage = [Live ''a'', Live ''b''], m_size = 2\<rparr>) =
     [SizeBelowCapacity, SizeBelowCapacity] \<and>
   checks (copy_assign_other string_element 4 2 id
             \<lparr>m_storage = [Live ''a'', Live ''b''], m_size = 2\<rparr>
             \<lparr>m_storage = [Live ''c'', Raw, Raw, Raw], m_size = 1\<rparr>) =
     [SizeBelowCapacity, SizeBelowCapacity]"
  by code_simp

text \<open>
  C1, amended: each of the four cross-capacity operations (copy and move, construction and
  assignment) evaluates the check of the source's size against the destination's capacity if
  and only if the source's declared capacity is greater than the destination's; when it is
  evaluated and the source's size exceeds the destination's capacity, the call aborts on it.
\<close>

theorem cross_capacity_check_guarded:
  "(SizeFitsCapacity \<in> set (checks (StaticVector_copy_other E CAPACITY OTHER_CAPACITY conv other))
      \<longleftrightarrow> OTHER_CAPACITY > CAPACITY) \<and>
   (SizeFitsCapacity \<in> set (checks (StaticVector_move_other E E' CAPACITY OTHER_CAPACITY conv other))
      \<longleftrightarrow> OTHER_CAPACITY > CAPACITY) \<and>
   (SizeFitsCapacity \<in> set (checks (copy_assign_other E CAPACITY OTHER_CAPACITY conv other v))
      \<longleftrightarrow> OTHER_CAPACITY > CAPACITY) \<and>
   (SizeFitsCapacity \<in> set (checks (move_assign_other E E' CAPACITY OTHER_CAPACITY conv other v))
      \<longleftrightarrow> OTHER_CAPACITY > CAPACITY) \<and>
   (OTHER_CAPACITY > CAPACITY \<and> size_sv other > CAPACITY \<longrightarrow>
      outcome (StaticVector_copy_other E CAPACITY OTHER_CAPACITY conv other) =
        AssertionFailed SizeFitsCapacity \<and>
      outcome (StaticVector_move_other E E' CAPACITY OTHER_CAPACITY conv other) =
        AssertionFailed SizeFitsCapacity \<and>
      outcome (copy_assign_other E CAPACITY OTHER_CAPACITY conv other v) =
        AssertionFailed SizeFitsCapacity \<and>
      outcome (move_assign_other E E' CAPACITY OTHER_CAPACITY conv other v) =
        AssertionFailed SizeFitsCapacity)"
proof (cases "OTHER_CAPACITY > CAPACITY")
  case True
  then show ?thesis
    by (simp add: StaticVector_copy_other_def StaticVector_move_other_def copy_assign_other_def
          move_assign_other_def checks_and_then outcome_and_then)
next
  case False
  have "SizeFitsCapacity \<notin>
          set (checks (convert_elements CAPACITY conv other (StaticVector_default E CAPACITY)))"
    by (rule not_in_checks_convert_elements)
  moreover have "SizeFitsCapacity \<notin>
          set (checks (move_elements E' CAPACITY conv (StaticVector_default E CAPACITY, other)))"
    by (rule not_in_checks_move_elements)
  moreover have "SizeFitsCapacity \<notin>
          set (checks (and_then (clear E v) (convert_elements CAPACITY conv other)))"
    by (rule not_in_checks_clear_copy)
  moreover have "SizeFitsCapacity \<notin>
          set (checks (and_then (clear E v) (\<lambda>v'. move_elements E' CAPACITY conv (v', other))))"
    by (rule not_in_checks_clear_move)
  ultimately show ?thesis
    using False
    by (simp add: StaticVector_copy_other_def StaticVector_move_other_def copy_assign_other_def
          move_assign_other_def)
qed

theorem cross_capacity_check_guarded_witness:
  "(4::nat) > 2 \<and> size_sv \<lparr>m_storage = [Live ''a'', Live ''b'', Live ''c'', Raw], m_size = 3\<rparr> > 2 \<and>
   SizeFitsCapacity \<in> set (checks (StaticVector_copy_other string_element 2 4 id
      \<lparr>m_storage = [Live ''a'', Live ''b'', Live ''c'', Raw], m_size = 3\<rparr>)) \<and>
   outcome (StaticVector_copy_other string_element 2 4 id
      \<lparr>m_storage = [Live ''a'', Live ''b'', Live ''c'', Raw], m_size = 3\<rparr>) =
     AssertionFailed SizeFitsCapacity \<and>
   outcome (move_assign_other string_element string_element 2 4 id
      \<lparr>m_storage = [Live ''a'', Live ''b'', Live ''c'', Raw], m_size = 3\<rparr>
      \<lparr>m_storage = [Raw, Raw], m_size = 0\<rparr>) =
     AssertionFailed SizeFitsCapacity"
  using cross_capacity_check_guarded[of string_element 2 4 id
      "\<lparr>m_storage = [Live ''a'', Live ''b'', Live ''c'', Raw], m_size = 3\<rparr>"
      string_element "\<lparr>m_storage = [Raw, Raw], m_size = 0\<rparr>"]
  by (simp add: size_sv_def)

subsection \<open>C2: erasing a range\<close>

text \<open>
  C2. The claim is that \<open>erase\<close> closes the gap, lowers the size by the length of the range and
  destroys the slots that fall out of use. On the \<open>StaticVector<std::string, 4>\<close> built from
  \<open>{"a", "b", "c"}\<close>, erasing \<open>[begin() + 1, begin() + 2)\<close> gives the elements \<open>a, c\<close> and size
  2, but slot 2 still holds a live string: the one moved from after
  \<^verbatim>\<open>erase(iterator, iterator)\<close>, a copy of \<open>"c"\<close> after
  \<^verbatim>\<open>erase(const_iterator, const_iterator)\<close>, which copy-assigns. Neither overload calls a
  destructor, and the vector's own destructor, which runs over the slots below the size,
  never reaches that slot. \<open>pop_back\<close> on the same vector does destroy the slot it frees.
\<close>

theorem erase_leaves_live_slot:
  "outcome (and_then (StaticVector_init_list string_element 4 [''a'', ''b'', ''c''])
              (erase string_element 1 2)) =
     Returned (\<lparr>m_storage = [Live ''a'', Live ''c'', Live [], Raw], m_size = 2\<rparr>, 1) \<and>
   outcome (destructor string_element
              \<lparr>m_storage = [Live ''a'', Live ''c'', Live [], Raw], m_size = 2\<rparr>) =
     Returned \<lparr>m_storage = [Raw, Raw, Live [], Raw], m_size = 2\<rparr> \<and>
   outcome (and_then (StaticVector_init_list string_element 4 [''a'', ''b'', ''c''])
              (erase_const 1 2)) =
     Returned (\<lparr>m_storage = [Live ''a'', Live ''c'', Live ''c'', Raw], m_size = 2\<rparr>, 1) \<and>
   outcome (destructor string_element
              \<lparr>m_storage = [Live ''a'', Live ''c'', Live ''c'', Raw], m_size = 2\<rparr>) =
     Returned \<lparr>m_storage = [Raw, Raw, Live ''c'', Raw], m_size = 2\<rparr> \<and>
   outcome (and_then (StaticVector_init_list string_element 4 [''a'', ''b'', ''c''])
              (erase_at string_element 0)) =
     Returned (\<lparr>m_storage = [Live ''b'', Live ''c'', Live [], Raw], m_size = 2\<rparr>, 0) \<and>
   outcome (and_then (StaticVector_init_list string_element 4 [''a'', ''b'', ''c''])
              (erase_const_at 0)) =
     Returned (\<lparr>m_storage = [Live ''b'', Live ''c'', Live ''c'', Raw], m_size = 2\<rparr>, 0) \<and>
   outcome (and_then (StaticVector_init_list string_element 4 [''a'', ''b'', ''c''])
              (pop_back string_element)) =
     Returned (''c'', \<lparr>m_storage = [Live ''a'', Live ''b'', Raw, Raw], m_size = 2\<rparr>)"
  by code_simp

subsection \<open>C3: which precondition violations an assertion signals\<close>




subsection \<open>C4: comparing reverse iterators\<close>

text \<open>
  C4. The claim is that a reverse iterator reached earlier from \<open>rbegin()\<close> compares less than
  one reached later. Over the \<open>StaticVector<int, 4>\<close> holding \<open>[1, 2, 3]\<close>, \<open>rbegin()\<close> is
  reached before \<open>++rbegin()\<close>; \<open>operator+\<close> and \<open>operator-\<close> agree (the second is the first
  plus 1, and the distance from the first to the second is 1), but the relational operators
  compare the wrapped pointers unreversed: \<open>rbegin() < ++rbegin()\<close> and
  \<open>rbegin() <= ++rbegin()\<close> are false, \<open>rbegin() > ++rbegin()\<close> and \<open>rbegin() >= ++rbegin()\<close>
  are true.
\<close>

theorem reverse_iterator_order_example:
  "\<not> ri_less (rbegin \<lparr>m_storage = [Live 1, Live 2, Live 3, Live (0::int)], m_size = 3\<rparr>)
       (ri_inc (rbegin \<lparr>m_storage = [Live 1, Live 2, Live 3, Live (0::int)], m_size = 3\<rparr>)) \<and>
   \<not> ri_less_eq (rbegin \<lparr>m_storage = [Live 1, Live 2, Live 3, Live (0::int)], m_size = 3\<rparr>)
       (ri_inc (rbegin \<lparr>m_storage = [Live 1, Live 2, Live 3, Live (0::int)], m_size = 3\<rparr>)) \<and>
   ri_greater (rbegin \<lparr>m_storage = [Live 1, Live 2, Live 3, Live (0::int)], m_size = 3\<rparr>)
       (ri_inc (rbegin \<lparr>m_storage = [Live 1, Live 2, Live 3, Live (0::int)], m_size = 3\<rparr>)) \<and>
   ri_greater_eq (rbegin \<lparr>m_storage = [Live 1, Live 2, Live 3, Live (0::int)], m_size = 3\<rparr>)
       (ri_inc (rbegin \<lparr>m_storage = [Live 1, Live 2, Live 3, Live (0::int)], m_size = 3\<rparr>)) \<and>
   ri_less (ri_inc (rbegin \<lparr>m_storage = [Live 1, Live 2, Live 3, Live (0::int)], m_size = 3\<rparr>))
       (rbegin \<lparr>m_storage = [Live 1, Live 2, Live 3, Live (0::int)], m_size = 3\<rparr>) \<and>
   ri_inc (rbegin \<lparr>m_storage = [Live 1, Live 2, Live 3, Live (0::int)], m_size = 3\<rparr>) =
     ri_plus (rbegin \<lparr>m_storage = [Live 1, Live 2, Live 3, Live (0::int)], m_size = 3\<rparr>) 1 \<and>
   ri_distance (ri_inc (rbegin \<lparr>m_storage = [Live 1, Live 2, Live 3, Live (0::int)], m_size = 3\<rparr>))
       (rbegin \<lparr>m_storage = [Live 1, Live 2, Live 3, Live (0::int)], m_size = 3\<rparr>) = 1 \<and>
   outcome (ri_deref \<lparr>m_storage = [Live 1, Live 2, Live 3, Live (0::int)], m_size = 3\<rparr>
       (rbegin \<lparr>m_storage = [Live 1, Live 2, Live 3, Live (0::int)], m_size = 3\<rparr>)) = Returned 3 \<and>
   outcome (ri_deref \<lparr>m_storage = [Live 1, Live 2, Live 3, Live (0::int)], m_size = 3\<rparr>
       (ri_inc (rbegin \<lparr>m_storage = [Live 1, Live 2, Live 3, Live (0::int)], m_size = 3\<rparr>))) =
     Returned 2"
  by (simp add: ri_less_def ri_less_eq_def ri_greater_def ri_greater_eq_def ri_inc_def
        ri_plus_def rbegin_def ri_distance_def ri_deref_def read_slot_def)

subsection \<open>C5: resizing\<close>

text \<open>
  C5. The claim is that \<open>resize\<close> to a smaller count leaves exactly that many live elements,
  and to a greater one fills the new slots with value-initialised elements. On the
  \<open>StaticVector<std::string, 4>\<close> built from \<open>{"a", "b", "c"}\<close>, \<open>resize(1)\<close> sets the size
  and leaves \<open>"b"\<close> and \<open>"c"\<close> alive in slots 1 and 2, where the destructor of the vector does
  not reach them. On the one built from \<open>{"a"}\<close>, \<open>resize(2)\<close> assigns \<^verbatim>\<open>Element{}\<close> to
  slot 1, which holds no object. For \<open>int\<close>, whose storage is an array of elements, growing
  does what the claim says.
\<close>

theorem resize_skips_lifetimes:
  "outcome (and_then (StaticVector_init_list string_element 4 [''a'', ''b'', ''c''])
              (resize string_element 4 1)) =
     Returned \<lparr>m_storage = [Live ''a'', Live ''b'', Live ''c'', Raw], m_size = 1\<rparr> \<and>
   outcome (destructor string_element
              \<lparr>m_storage = [Live ''a'', Live ''b'', Live ''c'', Raw], m_size = 1\<rparr>) =
     Returned \<lparr>m_storage = [Raw, Live ''b'', Live ''c'', Raw], m_size = 1\<rparr> \<and>
   outcome (and_then (StaticVector_init_list string_element 4 [''a''])
              (resize string_element 4 2)) = UndefinedBehaviour \<and>
   outcome (and_then (StaticVector_init_list int_element 4 [7])
              (resize int_element 4 3)) =
     Returned \<lparr>m_storage = [Live 7, Live 0, Live 0, Live 0], m_size = 3\<rparr>"
  by code_simp

subsection \<open>C6: a sequence of \<open>push_back\<close> calls\<close>

text \<open>
  C6. Starting from the empty vector of any capacity, \<open>k\<close> calls of \<open>push_back\<close> with the values
  \<open>vs\<close>, \<open>k \<le> CAPACITY\<close>, all return, and leave a vector of size \<open>k\<close> whose element at index
  \<open>i\<close> is \<open>vs ! i\<close>, in the order pushed; so for the copying and for the moving overload. The
  calls are chained by \<open>for_each\<close>: each works on the vector the one before returned.
\<close>

theorem push_back_sequence:
  assumes "length vs \<le> CAPACITY"
  shows "(\<exists>v. outcome (for_each vs (push_back CAPACITY) (StaticVector_default E CAPACITY)) =
                Returned v \<and>
              size_sv v = length vs \<and>
              live_part v = map Live vs \<and>
              (\<forall>i<length vs. outcome (subscript v i) = Returned (vs ! i))) \<and>
         (\<exists>v. outcome (for_each vs (push_back_rv CAPACITY) (StaticVector_default E CAPACITY)) =
                Returned v \<and>
              size_sv v = length vs \<and>
              live_part v = map Live vs \<and>
              (\<forall>i<length vs. outcome (subscript v i) = Returned (vs ! i)))"
proof -
  let ?init = "StaticVector_default E CAPACITY"
  have len: "length (m_storage ?init) = CAPACITY" and sz: "m_size ?init = 0"
    by (simp_all add: StaticVector_default_def UninitializedArray_def)
  let ?res = "\<lparr>m_storage = map Live vs @ drop (length vs) (m_storage ?init), m_size = length vs\<rparr>"
  have run: "outcome (for_each vs (push_back CAPACITY) ?init) = Returned ?res"
    using for_each_push_back[OF len, of vs] assms sz by simp
  have "outcome (subscript ?res i) = Returned (vs ! i)" if "i < length vs" for i
    using that by (simp add: subscript_def read_slot_def nth_append)
  then have "\<exists>v. outcome (for_each vs (push_back CAPACITY) ?init) = Returned v \<and>
               size_sv v = length vs \<and> live_part v = map Live vs \<and>
               (\<forall>i<length vs. outcome (subscript v i) = Returned (vs ! i))"
    using run by (intro exI[of _ ?res]) (simp add: size_sv_def live_part_def)
  then show ?thesis by (simp add: push_back_rv_eq)
qed

theorem push_back_sequence_witness:
  "length [1, 2, 3 :: int] \<le> 4 \<and>
   (\<exists>v. outcome (for_each [1, 2, 3 :: int] (push_back 4) (StaticVector_default int_element 4)) =
          Returned v \<and>
        size_sv v = length [1, 2, 3 :: int] \<and>
        live_part v = map Live [1, 2, 3 :: int] \<and>
        (\<forall>i<length [1, 2, 3 :: int]. outcome (subscript v i) = Returned ([1, 2, 3 :: int] ! i)))"
  using push_back_sequence[of "[1, 2, 3 :: int]" 4 int_element]
  by simp

subsection \<open>C7: inserting\<close>

text \<open>
  C7. The claim is that \<open>insert\<close> shifts the elements from the position on, writes the value
  and leaves every slot below the new size holding one constructed element, at \<open>end()\<close> too.
  On the \<open>StaticVector<std::string, 4>\<close> built from \<open>{"a"}\<close>, inserting at \<open>end()\<close> assigns
  the value to slot 1, which holds no object; inserting before the end move-assigns the last
  element to the slot at the old size, which holds no object either. \<open>push_back\<close> constructs
  the element in that slot. For \<open>int\<close> the example of the claim holds: inserting 2 at index 1
  of \<open>[1, 3]\<close> gives \<open>[1, 2, 3]\<close> and size 3.
\<close>

theorem insert_assigns_to_raw_slot:
  "outcome (and_then (StaticVector_init_list string_element 4 [''a''])
              (insert_sv string_element 4 1 ''b'')) = UndefinedBehaviour \<and>
   outcome (and_then (StaticVector_init_list string_element 4 [''a''])
              (insert_rv string_element 4 1 ''b'')) = UndefinedBehaviour \<and>
   outcome (and_then (StaticVector_init_list string_element 4 [''a'', ''c''])
              (insert_sv string_element 4 1 ''b'')) = UndefinedBehaviour \<and>
   outcome (and_then (StaticVector_init_list string_element 4 [''a''])
              (push_back 4 ''b'')) =
     Returned \<lparr>m_storage = [Live ''a'', Live ''b'', Raw, Raw], m_size = 2\<rparr> \<and>
   outcome (and_then (StaticVector_init_list int_element 4 [1, 3])
              (insert_sv int_element 4 1 2)) =
     Returned (\<lparr>m_storage = [Live 1, Live 2, Live 3, Live 0], m_size = 3\<rparr>, 1)"
  by code_simp

subsection \<open>C8: reverse iteration\<close>

text \<open>
  C8. For a vector holding the elements \<open>xs\<close>, the loop from \<open>rbegin()\<close> to \<open>rend()\<close> ends and
  reads exactly the elements of \<open>xs\<close> from the last to the first; \<open>rbegin()\<close> points to slot
  \<open>size - 1\<close>, the last live slot, which holds the last element, and \<open>rend()\<close> to slot \<open>-1\<close>, one
  before the first. Over \<open>[1, 2, 3]\<close> the loop reads 3, 2, 1.
\<close>

theorem reverse_iteration:
  assumes "m_size v \<le> length (m_storage v)" and "live_part v = map Live xs"
  shows "traverse v (rbegin v) (rend v) = Some (map Returned (rev xs)) \<and>
         m_ptr (rbegin v) = int (size_sv v) - 1 \<and>
         m_ptr (rend v) = - 1 \<and>
         (xs \<noteq> [] \<longrightarrow> outcome (ri_deref v (rbegin v)) = Returned (last xs))"
proof -
  have len: "length xs = m_size v" using assms by (rule live_part_length)
  have "traverse v (rbegin v) (rend v) = Some (map Returned (rev (take (m_size v) xs)))"
    unfolding rbegin_def using assms by (intro traverse_down) simp_all
  then have walk: "traverse v (rbegin v) (rend v) = Some (map Returned (rev xs))"
    using len by simp
  have "outcome (ri_deref v (rbegin v)) = Returned (last xs)" if "xs \<noteq> []"
  proof -
    from that len have pos: "m_size v - 1 < m_size v" by (cases xs) simp_all
    have "m_storage v ! (m_size v - 1) = Live (xs ! (m_size v - 1))"
      using assms pos by (rule live_part_nth)
    moreover have "nat (int (m_size v) - 1) = m_size v - 1" by simp
    moreover have "0 \<le> int (m_size v) - 1" using pos by simp
    ultimately show ?thesis
      using pos assms(1) that len
      by (simp add: ri_deref_def rbegin_def read_slot_def last_conv_nth del: One_nat_def)
  qed
  then show ?thesis
    using walk by (simp add: rbegin_def rend_def size_sv_def)
qed

theorem reverse_iteration_witness:
  "m_size \<lparr>m_storage = [Live 1, Live 2, Live 3, Live (0::int)], m_size = 3\<rparr>
     \<le> length (m_storage \<lparr>m_storage = [Live 1, Live 2, Live 3, Live (0::int)], m_size = 3\<rparr>) \<and>
   live_part \<lparr>m_storage = [Live 1, Live 2, Live 3, Live (0::int)], m_size = 3\<rparr> =
     map Live [1, 2, 3] \<and>
   traverse \<lparr>m_storage = [Live 1, Live 2, Live 3, Live (0::int)], m_size = 3\<rparr>
     (rbegin \<lparr>m_storage = [Live 1, Live 2, Live 3, Live (0::int)], m_size = 3\<rparr>)
     (rend \<lparr>m_storage = [Live 1, Live 2, Live 3, Live (0::int)], m_size = 3\<rparr>) =
     Some [Returned 3, Returned 2, Returned 1]"
  using reverse_iteration[of "\<lparr>m_storage = [Live 1, Live 2, Live 3, Live (0::int)], m_size = 3\<rparr>"
      "[1, 2, 3]"]
  by (simp add: live_part_def)

subsection \<open>C9: the size stays within the capacity\<close>


subsection \<open>C10: moving leaves the size of the source\<close>

text \<open>
  C10. Move construction from a vector \<open>s\<close> of the same capacity returns and leaves \<open>s\<close> with its
  size; its slots below the size stay live and hold the moved-from values of its elements,
  which the new vector now holds. Move assignment from the vector at address \<open>other\<close> to the one
  at \<open>this\<close> does the same to the source, and nothing when the two are one object. Moving
  never clears the source.
\<close>

theorem move_keeps_source_size:
  assumes "wf E CAPACITY s" and "wf E CAPACITY (st this)" and "wf E CAPACITY (st other)"
  shows "(\<exists>d s'. outcome (StaticVector_move E CAPACITY s) = Returned (d, s') \<and>
            size_sv s' = size_sv s \<and>
            live_part s' = map Live (map (moved_from E) (elements s)) \<and>
            elements d = elements s) \<and>
         (\<exists>st'. outcome (move_assign E CAPACITY this other st) = Returned st' \<and>
            size_sv (st' other) = size_sv (st other) \<and>
            list_all is_live (live_part (st' other)) \<and>
            (this \<noteq> other \<longrightarrow>
               live_part (st' other) = map Live (map (moved_from E) (elements (st other))) \<and>
               elements (st' this) = elements (st other)))"
proof
  have "m_size s \<le> CAPACITY" using assms(1) by (simp add: wf_def)
  from move_elements_wf[OF assms(1) wf_default _ this, of E "\<lambda>e. e"]
  show "\<exists>d s'. outcome (StaticVector_move E CAPACITY s) = Returned (d, s') \<and>
          size_sv s' = size_sv s \<and>
          live_part s' = map Live (map (moved_from E) (elements s)) \<and>
          elements d = elements s"
    by (auto simp: StaticVector_move_def StaticVector_default_def size_sv_def elements_def)
next
  show "\<exists>st'. outcome (move_assign E CAPACITY this other st) = Returned st' \<and>
          size_sv (st' other) = size_sv (st other) \<and>
          list_all is_live (live_part (st' other)) \<and>
          (this \<noteq> other \<longrightarrow>
             live_part (st' other) = map Live (map (moved_from E) (elements (st other))) \<and>
             elements (st' this) = elements (st other))"
  proof (cases "this = other")
    case True
    then show ?thesis
      using assms(3) by (simp add: move_assign_def wf_def live_part_def)
  next
    case False
    from clear_run[OF assms(2)] obtain v' where
      v': "outcome (clear E (st this)) = Returned v'" "m_size v' = 0" "wf E CAPACITY v'"
      by blast
    have "m_size (st other) \<le> CAPACITY" using assms(3) by (simp add: wf_def)
    from move_elements_wf[OF assms(3) v'(3) v'(2) this, of "\<lambda>e. e"] obtain d s' where
      ds: "outcome (move_elements E CAPACITY (\<lambda>e. e) (v', st other)) = Returned (d, s')"
        "m_size s' = m_size (st other)"
        "live_part s' = map Live (map (moved_from E) (elements (st other)))"
        "live_part d = map Live (elements (st other))"
      by auto
    have "outcome (move_assign E CAPACITY this other st) = Returned (st(this := d, other := s'))"
      using False v'(1) ds(1) by (simp add: move_assign_def)
    then show ?thesis
      using False ds(2,3,4) by (simp add: size_sv_def elements_def)
  qed
qed

theorem move_keeps_source_size_witness:
  "wf string_element 3 \<lparr>m_storage = [Live ''a'', Live ''b'', Raw], m_size = 2\<rparr> \<and>
   wf string_element 3 \<lparr>m_storage = [Live ''c'', Raw, Raw], m_size = 1\<rparr> \<and>
   (\<exists>d s'. outcome (StaticVector_move string_element 3
                      \<lparr>m_storage = [Live ''a'', Live ''b'', Raw], m_size = 2\<rparr>) = Returned (d, s') \<and>
      size_sv s' = size_sv \<lparr>m_storage = [Live ''a'', Live ''b'', Raw], m_size = 2\<rparr> \<and>
      live_part s' = map Live (map (moved_from string_element)
                       (elements \<lparr>m_storage = [Live ''a'', Live ''b'', Raw], m_size = 2\<rparr>)) \<and>
      elements d = elements \<lparr>m_storage = [Live ''a'', Live ''b'', Raw], m_size = 2\<rparr>) \<and>
   (\<exists>st'. outcome (move_assign string_element 3 0 1
                     (\<lambda>a. if a = (0::nat) then \<lparr>m_storage = [Live ''c'', Raw, Raw], m_size = 1\<rparr>
                           else \<lparr>m_storage = [Live ''a'', Live ''b'', Raw], m_size = 2\<rparr>)) =
             Returned st' \<and>
      size_sv (st' 1) = size_sv \<lparr>m_storage = [Live ''a'', Live ''b'', Raw], m_size = 2\<rparr> \<and>
      list_all is_live (live_part (st' 1)) \<and>
      live_part (st' 1) = map Live (map (moved_from string_element)
                            (elements \<lparr>m_storage = [Live ''a'', Live ''b'', Raw], m_size = 2\<rparr>)) \<and>
      elements (st' 0) = elements \<lparr>m_storage = [Live ''a'', Live ''b'', Raw], m_size = 2\<rparr>)"
proof -
  have h1: "wf string_element 3 \<lparr>m_storage = [Live ''a'', Live ''b'', Raw], m_size = 2\<rparr>"
    and h2: "wf string_element 3 \<lparr>m_storage = [Live ''c'', Raw, Raw], m_size = 1\<rparr>"
    by (simp_all add: wf_def string_element_def constructor_and_destructor_are_cheap_def)
  show ?thesis
    using h1 h2
      move_keeps_source_size[of string_element 3
        "\<lparr>m_storage = [Live ''a'', Live ''b'', Raw], m_size = 2\<rparr>"
        "\<lambda>a. if a = (0::nat) then \<lparr>m_storage = [Live ''c'', Raw, Raw], m_size = 1\<rparr>
             else \<lparr>m_storage = [Live ''a'', Live ''b'', Raw], m_size = 2\<rparr>" 0 1]
    by simp
qed

end
